theory Spec2Isabelle
  imports Main "HOL-Library.AList"
begin

section \<open>Data model of the event dispatcher\<close>

text \<open>
  The repository is one TypeScript class, \<^verbatim>\<open>EventHub\<close>: a registry that maps an event
  name to an array of listener records, a second array for the wildcard token \<^verbatim>\<open>'*'\<close>, and
  the methods \<^verbatim>\<open>on\<close>, \<^verbatim>\<open>once\<close>, \<^verbatim>\<open>off\<close>, \<^verbatim>\<open>emit\<close>, \<^verbatim>\<open>reset\<close> and the read-only queries.

  JavaScript values (\<^verbatim>\<open>any\<close>) that the dispatcher passes around: event arguments, bound
  contexts, results of handlers and thrown errors. A function value is a reference,
  compared by identity; it is modelled by the number of the closure. Numbers are integers
  here (no \<^verbatim>\<open>NaN\<close>, no fractions). \<open>Obj\<close> is an ordinary object, \<open>Bare\<close> an object that has
  no conversion to a string (\<^verbatim>\<open>Object.create(null)\<close>), \<open>Sym\<close> a symbol, \<open>Promise\<close> an instance
  of \<^verbatim>\<open>Promise\<close> (numbered), and \<open>TypeError\<close>, \<open>RangeError\<close> are the error objects that the
  engine itself throws. An object whose conversion to a string runs code of the caller is
  not modelled.
\<close>

datatype jsval =
    Undefined
  | Null
  | Bool bool
  | Num int
  | Str string
  | Obj nat
  | Bare nat
  | Fun nat
  | Sym nat
  | Promise nat
  | TypeError
  | RangeError

text \<open>Truthiness, as \<^verbatim>\<open>x || y\<close> and \<^verbatim>\<open>if (x)\<close> test it.\<close>

fun truthy :: "jsval \<Rightarrow> bool" where
  "truthy Undefined = False"
| "truthy Null = False"
| "truthy (Bool b) = b"
| "truthy (Num n) = (n \<noteq> 0)"
| "truthy (Str s) = (s \<noteq> [])"
| "truthy (Obj a) = True"
| "truthy (Bare a) = True"
| "truthy (Fun f) = True"
| "truthy (Sym y) = True"
| "truthy (Promise q) = True"
| "truthy TypeError = True"
| "truthy RangeError = True"

text \<open>
  The conversion to a string that a template literal \<^verbatim>\<open>`${x}`\<close> applies: it throws a
  \<^verbatim>\<open>TypeError\<close> for a symbol and for an object without a conversion, and yields a string
  for every other value.
\<close>

fun printable :: "jsval \<Rightarrow> bool" where
  "printable (Sym y) = False"
| "printable (Bare a) = False"
| "printable Undefined = True"
| "printable Null = True"
| "printable (Bool b) = True"
| "printable (Num n) = True"
| "printable (Str s) = True"
| "printable (Obj a) = True"
| "printable (Fun f) = True"
| "printable (Promise q) = True"
| "printable TypeError = True"
| "printable RangeError = True"

text \<open>\<^verbatim>\<open>x instanceof Promise\<close>.\<close>

fun isPromise :: "jsval \<Rightarrow> bool" where
  "isPromise (Promise q) = True"
| "isPromise Undefined = False"
| "isPromise Null = False"
| "isPromise (Bool b) = False"
| "isPromise (Num n) = False"
| "isPromise (Str s) = False"
| "isPromise (Obj a) = False"
| "isPromise (Bare a) = False"
| "isPromise (Fun f) = False"
| "isPromise (Sym y) = False"
| "isPromise TypeError = False"
| "isPromise RangeError = False"

text \<open>
  \<^verbatim>\<open>interface Listener { handler; once; priority; context? }\<close>. The fields \<^verbatim>\<open>once\<close> and
  \<^verbatim>\<open>context\<close> are \<open>isOnce\<close> and \<open>boundContext\<close> here (\<open>once\<close> is the method below); an
  omitted context is \<open>Undefined\<close>. The priority is an integer. The source compares
  listener objects by reference (\<^verbatim>\<open>l !== listener\<close>); \<open>ident\<close> is that reference: the
  serial number the object received when \<^verbatim>\<open>addListener\<close> allocated it.
\<close>

record listener =
  handler :: nat
  isOnce :: bool
  priority :: int
  boundContext :: jsval
  ident :: nat

datatype level = LevelLog | LevelWarn | LevelError

text \<open>
  The two messages that the class writes; each is kept with the values that its template
  literal prints (the limit; the event name and the error).
\<close>

datatype message =
    MaxListenersExceededWarning int
  | UnhandledListenerError string jsval

text \<open>The receiver of a handler call: the dispatcher itself (\<^verbatim>\<open>this\<close>) or a bound context.\<close>

datatype receiver = This | Bound jsval

text \<open>How a handler call ends: it returns a value or throws one.\<close>

datatype outcome = Returns jsval | Throws jsval

datatype fanout = Wildcard | Specific

text \<open>
  A fan-out suspended at \<^verbatim>\<open>await result\<close>: the promise it waits for, the number of the
  \<^verbatim>\<open>emit\<close> call it belongs to, which of the two fan-outs it is, the event name and the
  arguments of that \<^verbatim>\<open>emit\<close>, the record whose handler returned the promise, and the
  records of the copy that are still to come.
\<close>

datatype task = Task jsval nat fanout string "jsval list" listener "listener list"

text \<open>
  What an observer of the dispatcher sees, in order. Every call of \<^verbatim>\<open>emit\<close> receives a serial
  number, which stands for the promise that the call returns. The entries: \<^verbatim>\<open>emit\<close> is
  called; a fan-out copies the array it will iterate over; a fan-out calls a handler (the
  record, the receiver, the arguments); that call returns or throws; a promise that a
  fan-out awaited has settled (fulfilled, or rejected with a value) and the fan-out goes
  on; the promise of a fan-out settles (fulfilled when the function returns, rejected when
  an exception leaves it); \<^verbatim>\<open>log\<close> writes a line to the console.
\<close>

datatype entry =
    Dispatch nat string "jsval list"
  | Copied nat fanout "listener list"
  | Invoke nat fanout listener receiver "jsval list"
  | Outcome nat fanout listener outcome
  | Awaited nat fanout listener "jsval option"
  | Finished nat fanout "jsval option"
  | Console level "string option" message

text \<open>
  The fields of the class, and with them what surrounds the dispatcher: the serial numbers
  for listener objects and for \<^verbatim>\<open>emit\<close> calls, the fan-outs that are suspended at an
  \<^verbatim>\<open>await\<close>, and the journal.
\<close>

record hub =
  events :: "(string \<times> listener list) list"
  wildcardListeners :: "listener list"
  maxListeners :: int
  wildcardEnabled :: bool
  asyncEnabled :: bool
  debugMode :: bool
  namespace :: "string option"
  nextId :: nat
  nextEmit :: nat
  suspended :: "task list"
  journal :: "entry list"

text \<open>\<^verbatim>\<open>interface EventHubOptions\<close>: every field is optional.\<close>

record options =
  optMaxListeners :: "int option"
  optWildcard :: "bool option"
  optEnableAsync :: "bool option"
  optDebug :: "bool option"
  optNamespace :: "string option"

text \<open>
  Handlers are closures of the caller. While it runs, a handler may call the public methods
  of the dispatcher; then it returns a value or throws one. The handler table gives, for
  the closure number, the dispatcher state at the call, the receiver and the arguments,
  the calls it makes and how it ends. A handler may return a promise; when and how that
  promise settles is decided outside the dispatcher (see \<open>resume\<close> below), and what an
  \<^verbatim>\<open>async\<close> handler does after its first \<^verbatim>\<open>await\<close> are later calls on the dispatcher like
  those of any other caller.
\<close>

datatype call =
    CallOn string nat jsval int
  | CallOnce string nat jsval int
  | CallOff "string option" "nat option"
  | CallEmit string "jsval list"
  | CallReset
  | CallSetMaxListeners int

type_synonym handlers = "nat \<Rightarrow> hub \<Rightarrow> receiver \<Rightarrow> jsval list \<Rightarrow> call list \<times> outcome"

text \<open>
  A call that may throw yields the thrown value, if any, and the state it leaves. A call of
  \<^verbatim>\<open>emit\<close> that does not throw has returned its promise; nothing in the class reads that
  promise but to swallow its rejection.
\<close>

type_synonym dispatch = "string \<Rightarrow> jsval list \<Rightarrow> hub \<Rightarrow> jsval option \<times> hub"

section \<open>The methods of \<^verbatim>\<open>EventHub\<close>\<close>

text \<open>The constructor: \<^verbatim>\<open>options.x ?? default\<close> for each field, empty registry.\<close>

definition newEventHub :: "options \<Rightarrow> hub" where
  "newEventHub opts =
     \<lparr> events = [],
       wildcardListeners = [],
       maxListeners = (case optMaxListeners opts of None \<Rightarrow> 10 | Some n \<Rightarrow> n),
       wildcardEnabled = (case optWildcard opts of None \<Rightarrow> True | Some b \<Rightarrow> b),
       asyncEnabled = (case optEnableAsync opts of None \<Rightarrow> True | Some b \<Rightarrow> b),
       debugMode = (case optDebug opts of None \<Rightarrow> False | Some b \<Rightarrow> b),
       namespace = optNamespace opts,
       nextId = 0,
       nextEmit = 0,
       suspended = [],
       journal = [] \<rparr>"

definition noOptions :: options where
  "noOptions =
     \<lparr> optMaxListeners = None, optWildcard = None, optEnableAsync = None,
       optDebug = None, optNamespace = None \<rparr>"

definition reset :: "hub \<Rightarrow> hub" where
  "reset s = s\<lparr>events := [], wildcardListeners := []\<rparr>"

definition hasEvent :: "string \<Rightarrow> hub \<Rightarrow> bool" where
  "hasEvent event s =
     (if event = ''*'' \<and> wildcardEnabled s then length (wildcardListeners s) > 0
      else map_of (events s) event \<noteq> None)"

definition listenerCount :: "string \<Rightarrow> hub \<Rightarrow> nat" where
  "listenerCount event s =
     (if event = ''*'' \<and> wildcardEnabled s then length (wildcardListeners s)
      else (case map_of (events s) event of
              Some listeners \<Rightarrow> length listeners
            | None \<Rightarrow> 0))"

definition eventNames :: "hub \<Rightarrow> string list" where
  "eventNames s = map fst (events s)"

definition setMaxListeners :: "int \<Rightarrow> hub \<Rightarrow> hub" where
  "setMaxListeners n s = s\<lparr>maxListeners := n\<rparr>"

definition createNamespace :: "string \<Rightarrow> hub \<Rightarrow> hub" where
  "createNamespace name s =
     newEventHub
       \<lparr> optMaxListeners = Some (maxListeners s),
         optWildcard = Some (wildcardEnabled s),
         optEnableAsync = Some (asyncEnabled s),
         optDebug = Some (debugMode s),
         optNamespace = Some name \<rparr>"

text \<open>\<^verbatim>\<open>log\<close> writes nothing unless debug mode is on.\<close>

definition log :: "message \<Rightarrow> level \<Rightarrow> hub \<Rightarrow> hub" where
  "log msg lvl s =
     (if \<not> debugMode s then s
      else s\<lparr>journal := journal s @ [Console lvl (namespace s) msg]\<rparr>)"

definition getTotalListenerCount :: "hub \<Rightarrow> nat" where
  "getTotalListenerCount s =
     foldl (\<lambda>count listeners. count + length listeners)
       (length (wildcardListeners s)) (map snd (events s))"

text \<open>\<^verbatim>\<open>Array.prototype.findIndex\<close>; \<open>None\<close> is the result \<^verbatim>\<open>-1\<close>.\<close>

fun findIndex :: "('a \<Rightarrow> bool) \<Rightarrow> 'a list \<Rightarrow> nat option" where
  "findIndex P [] = None"
| "findIndex P (x # xs) =
     (if P x then Some 0
      else (case findIndex P xs of None \<Rightarrow> None | Some i \<Rightarrow> Some (Suc i)))"

text \<open>\<^verbatim>\<open>push\<close> when no record has a smaller priority, \<^verbatim>\<open>splice(index, 0, x)\<close> otherwise.\<close>

definition insertListenerByPriority :: "listener list \<Rightarrow> listener \<Rightarrow> listener list" where
  "insertListenerByPriority listeners newListener =
     (case findIndex (\<lambda>l. priority l < priority newListener) listeners of
        None \<Rightarrow> listeners @ [newListener]
      | Some index \<Rightarrow> take index listeners @ [newListener] @ drop index listeners)"

text \<open>
  \<^verbatim>\<open>addListener\<close>. The array held by the map is changed in place, which is an update of
  the map entry. The branch where \<^verbatim>\<open>events.get(event)\<close> is undefined right after the key
  was set changes a temporary array only.
\<close>

definition addListener :: "string \<Rightarrow> nat \<Rightarrow> bool \<Rightarrow> jsval \<Rightarrow> int \<Rightarrow> hub \<Rightarrow> hub" where
  "addListener event h one c p s =
     (if event = ''*'' \<and> \<not> wildcardEnabled s then s
      else
        let currentCount = getTotalListenerCount s;
            s1 = (if int currentCount \<ge> maxListeners s
                  then log (MaxListenersExceededWarning (maxListeners s)) LevelWarn s
                  else s);
            newListener = \<lparr> handler = h, isOnce = one, priority = p,
                            boundContext = c, ident = nextId s1 \<rparr>;
            s2 = s1\<lparr>nextId := Suc (nextId s1)\<rparr>
        in if event = ''*''
           then s2\<lparr>wildcardListeners :=
                     insertListenerByPriority (wildcardListeners s2) newListener\<rparr>
           else
             let s3 = (if map_of (events s2) event = None
                       then s2\<lparr>events := AList.update event [] (events s2)\<rparr>
                       else s2)
             in (case map_of (events s3) event of
                   None \<Rightarrow> s3
                 | Some listeners \<Rightarrow>
                     s3\<lparr>events := AList.update event
                          (insertListenerByPriority listeners newListener) (events s3)\<rparr>))"

definition on :: "string \<Rightarrow> nat \<Rightarrow> jsval \<Rightarrow> int \<Rightarrow> hub \<Rightarrow> hub" where
  "on event h c p s = addListener event h False c p s"

definition once :: "string \<Rightarrow> nat \<Rightarrow> jsval \<Rightarrow> int \<Rightarrow> hub \<Rightarrow> hub" where
  "once event h c p s = addListener event h True c p s"

text \<open>\<^verbatim>\<open>off(event?, handler?)\<close>: an omitted argument is \<open>None\<close>.\<close>

definition off :: "string option \<Rightarrow> nat option \<Rightarrow> hub \<Rightarrow> hub" where
  "off event h s =
     (case event of
        None \<Rightarrow> reset s
      | Some ev \<Rightarrow>
          if ev = ''*'' \<and> wildcardEnabled s then
            (case h of
               Some f \<Rightarrow>
                 s\<lparr>wildcardListeners := filter (\<lambda>l. handler l \<noteq> f) (wildcardListeners s)\<rparr>
             | None \<Rightarrow> s\<lparr>wildcardListeners := []\<rparr>)
          else
            (case h of
               Some f \<Rightarrow>
                 (case map_of (events s) ev of
                    Some listeners \<Rightarrow>
                      s\<lparr>events := AList.update ev
                           (filter (\<lambda>l. handler l \<noteq> f) listeners) (events s)\<rparr>
                  | None \<Rightarrow> s)
             | None \<Rightarrow> s\<lparr>events := AList.delete ev (events s)\<rparr>))"

subsection \<open>Dispatch\<close>

text \<open>
  \<^verbatim>\<open>emit\<close> is an \<^verbatim>\<open>async\<close> function: a call runs its body up to the first \<^verbatim>\<open>await\<close> and
  returns a promise. The two fan-out functions are \<^verbatim>\<open>async\<close> too; each runs, inside the call
  of \<^verbatim>\<open>emit\<close>, until it returns, until an exception leaves it, or until it awaits the promise
  that a handler returned. What \<^verbatim>\<open>emit\<close> awaits afterwards and its \<^verbatim>\<open>return true\<close> touch no
  field of the dispatcher; the state of the promise that \<^verbatim>\<open>emit\<close> returned is read off the
  journal by \<open>emitResult\<close> below.

  \<^verbatim>\<open>emit\<close> calls the two fan-outs, a failing handler leads to \<^verbatim>\<open>handleError\<close>, and that calls
  \<^verbatim>\<open>emit('error', ...)\<close> again; a handler may call \<^verbatim>\<open>emit\<close> too. The functions below take the
  inner \<^verbatim>\<open>emit\<close> as the parameter \<open>inner\<close>, and \<open>emit\<close> ties the knot over the room that the
  call stack of the engine has left, counted in nested calls of \<^verbatim>\<open>emit\<close>: a call of \<^verbatim>\<open>emit\<close>
  that finds no room throws a \<^verbatim>\<open>RangeError\<close> at the place of the call, as engines do when the
  stack is exhausted.
\<close>

text \<open>
  \<^verbatim>\<open>handleError\<close>. With a key \<^verbatim>\<open>'error'\<close> in the map it calls \<^verbatim>\<open>emit\<close>, whose promise gets an
  empty \<^verbatim>\<open>catch\<close>. Without one it builds the message, which converts the error to a string
  and throws where that conversion throws, and passes it to \<^verbatim>\<open>log\<close>.
\<close>

definition handleError :: "dispatch \<Rightarrow> jsval \<Rightarrow> string \<Rightarrow> nat \<Rightarrow> hub \<Rightarrow> jsval option \<times> hub" where
  "handleError inner error event h s =
     (if map_of (events s) ''error'' \<noteq> None
      then inner ''error'' [error, Str event, Fun h] s
      else if printable error
           then (None, log (UnhandledListenerError event error) LevelError s)
           else (Some TypeError, s))"

text \<open>One call that a handler body, or any other caller, makes on the dispatcher.\<close>

fun perform :: "dispatch \<Rightarrow> call \<Rightarrow> hub \<Rightarrow> jsval option \<times> hub" where
  "perform inner (CallOn event h c p) s = (None, on event h c p s)"
| "perform inner (CallOnce event h c p) s = (None, once event h c p s)"
| "perform inner (CallOff event h) s = (None, off event h s)"
| "perform inner (CallEmit event args) s = inner event args s"
| "perform inner CallReset s = (None, reset s)"
| "perform inner (CallSetMaxListeners n) s = (None, setMaxListeners n s)"

text \<open>The calls of a handler body, in order; a call that throws ends the body.\<close>

fun performAll :: "dispatch \<Rightarrow> call list \<Rightarrow> hub \<Rightarrow> jsval option \<times> hub" where
  "performAll inner [] s = (None, s)"
| "performAll inner (c # cs) s =
     (case perform inner c s of
        (None, s') \<Rightarrow> performAll inner cs s'
      | (Some e, s') \<Rightarrow> (Some e, s'))"

text \<open>\<^verbatim>\<open>listener.handler.call(listener.context || this, ...)\<close>.\<close>

definition receiverOf :: "listener \<Rightarrow> receiver" where
  "receiverOf l = (if truthy (boundContext l) then Bound (boundContext l) else This)"

text \<open>
  One handler call of a fan-out. The body makes its calls and ends as the table says; when
  one of its calls throws (an \<^verbatim>\<open>emit\<close> that finds no room on the stack), the handler does not
  catch that and throws it on.
\<close>

definition invoke ::
  "handlers \<Rightarrow> dispatch \<Rightarrow> nat \<Rightarrow> fanout \<Rightarrow> listener \<Rightarrow> jsval list \<Rightarrow> hub \<Rightarrow> outcome \<times> hub" where
  "invoke B inner i k l args s =
     (case B (handler l) s (receiverOf l) args of
        (calls, result) \<Rightarrow>
          (case performAll inner calls
                  (s\<lparr>journal := journal s @ [Invoke i k l (receiverOf l) args]\<rparr>) of
             (None, s') \<Rightarrow>
               (result, s'\<lparr>journal := journal s' @ [Outcome i k l result]\<rparr>)
           | (Some e, s') \<Rightarrow>
               (Throws e, s'\<lparr>journal := journal s' @ [Outcome i k l (Throws e)]\<rparr>)))"

text \<open>The removal of a one-shot record from the live array, by identity.\<close>

definition pruneWildcard :: "listener \<Rightarrow> hub \<Rightarrow> hub" where
  "pruneWildcard l s =
     s\<lparr>wildcardListeners := filter (\<lambda>x. ident x \<noteq> ident l) (wildcardListeners s)\<rparr>"

text \<open>
  For a named event the filter reads the array that the map holds at that moment
  (\<^verbatim>\<open>events.get(event) || []\<close>) and sets the key.
\<close>

definition pruneSpecific :: "string \<Rightarrow> listener \<Rightarrow> hub \<Rightarrow> hub" where
  "pruneSpecific event l s =
     s\<lparr>events := AList.update event
          (filter (\<lambda>x. ident x \<noteq> ident l)
             (case map_of (events s) event of
                Some currentListeners \<Rightarrow> currentListeners
              | None \<Rightarrow> []))
          (events s)\<rparr>"

text \<open>The promise of a fan-out settles: fulfilled (\<open>None\<close>) or rejected with a value.\<close>

definition finished :: "nat \<Rightarrow> fanout \<Rightarrow> jsval option \<Rightarrow> hub \<Rightarrow> hub" where
  "finished i k r s = s\<lparr>journal := journal s @ [Finished i k r]\<rparr>"

text \<open>
  The loop of \<^verbatim>\<open>processWildcardListeners\<close> over the copy of the wildcard array, for the
  \<^verbatim>\<open>emit\<close> call number \<open>i\<close>. A handler result that is a promise is awaited when asynchronous
  mode is on: the function is suspended with the rest of the copy. Otherwise a call that
  returns leads to the pruning of a one-shot record and to the next record. A call that
  throws leaves the \<^verbatim>\<open>try\<close> block before the pruning and leads to \<^verbatim>\<open>handleError\<close>; an
  exception thrown by \<^verbatim>\<open>handleError\<close>, inside the \<^verbatim>\<open>catch\<close> clause, leaves the function and
  rejects its promise.
\<close>

fun wildcardLoop ::
  "handlers \<Rightarrow> dispatch \<Rightarrow> nat \<Rightarrow> string \<Rightarrow> jsval list \<Rightarrow> listener list \<Rightarrow> hub \<Rightarrow> hub" where
  "wildcardLoop B inner i event args [] s = finished i Wildcard None s"
| "wildcardLoop B inner i event args (l # rest) s =
     (case invoke B inner i Wildcard l (Str event # args) s of
        (Returns result, s1) \<Rightarrow>
          if asyncEnabled s1 \<and> isPromise result
          then s1\<lparr>suspended := suspended s1 @ [Task result i Wildcard event args l rest]\<rparr>
          else wildcardLoop B inner i event args rest
                 (if isOnce l then pruneWildcard l s1 else s1)
      | (Throws error, s1) \<Rightarrow>
          (case handleError inner error event (handler l) s1 of
             (None, s2) \<Rightarrow> wildcardLoop B inner i event args rest s2
           | (Some e, s2) \<Rightarrow> finished i Wildcard (Some e) s2))"

text \<open>
  The same function when the promise it awaited has settled: fulfilled, it goes on after
  the \<^verbatim>\<open>await\<close> with the pruning; rejected, the \<^verbatim>\<open>await\<close> throws the value inside the \<^verbatim>\<open>try\<close>
  block.
\<close>

definition wildcardContinue ::
  "handlers \<Rightarrow> dispatch \<Rightarrow> nat \<Rightarrow> string \<Rightarrow> jsval list \<Rightarrow> listener \<Rightarrow> listener list
     \<Rightarrow> jsval option \<Rightarrow> hub \<Rightarrow> hub" where
  "wildcardContinue B inner i event args l rest settled s =
     (case settled of
        None \<Rightarrow>
          wildcardLoop B inner i event args rest
            (if isOnce l then pruneWildcard l s else s)
      | Some error \<Rightarrow>
          (case handleError inner error event (handler l) s of
             (None, s2) \<Rightarrow> wildcardLoop B inner i event args rest s2
           | (Some e, s2) \<Rightarrow> finished i Wildcard (Some e) s2))"

definition processWildcardListeners ::
  "handlers \<Rightarrow> dispatch \<Rightarrow> nat \<Rightarrow> string \<Rightarrow> jsval list \<Rightarrow> hub \<Rightarrow> hub" where
  "processWildcardListeners B inner i event args s =
     (if length (wildcardListeners s) = 0 then finished i Wildcard None s
      else wildcardLoop B inner i event args (wildcardListeners s)
             (s\<lparr>journal := journal s @ [Copied i Wildcard (wildcardListeners s)]\<rparr>))"

text \<open>The loop of \<^verbatim>\<open>processSpecificListeners\<close> over the copy of the event's array.\<close>

fun specificLoop ::
  "handlers \<Rightarrow> dispatch \<Rightarrow> nat \<Rightarrow> string \<Rightarrow> jsval list \<Rightarrow> listener list \<Rightarrow> hub \<Rightarrow> hub" where
  "specificLoop B inner i event args [] s = finished i Specific None s"
| "specificLoop B inner i event args (l # rest) s =
     (case invoke B inner i Specific l args s of
        (Returns result, s1) \<Rightarrow>
          if asyncEnabled s1 \<and> isPromise result
          then s1\<lparr>suspended := suspended s1 @ [Task result i Specific event args l rest]\<rparr>
          else specificLoop B inner i event args rest
                 (if isOnce l then pruneSpecific event l s1 else s1)
      | (Throws error, s1) \<Rightarrow>
          (case handleError inner error event (handler l) s1 of
             (None, s2) \<Rightarrow> specificLoop B inner i event args rest s2
           | (Some e, s2) \<Rightarrow> finished i Specific (Some e) s2))"

definition specificContinue ::
  "handlers \<Rightarrow> dispatch \<Rightarrow> nat \<Rightarrow> string \<Rightarrow> jsval list \<Rightarrow> listener \<Rightarrow> listener list
     \<Rightarrow> jsval option \<Rightarrow> hub \<Rightarrow> hub" where
  "specificContinue B inner i event args l rest settled s =
     (case settled of
        None \<Rightarrow>
          specificLoop B inner i event args rest
            (if isOnce l then pruneSpecific event l s else s)
      | Some error \<Rightarrow>
          (case handleError inner error event (handler l) s of
             (None, s2) \<Rightarrow> specificLoop B inner i event args rest s2
           | (Some e, s2) \<Rightarrow> finished i Specific (Some e) s2))"

definition processSpecificListeners ::
  "handlers \<Rightarrow> dispatch \<Rightarrow> nat \<Rightarrow> string \<Rightarrow> jsval list \<Rightarrow> hub \<Rightarrow> hub" where
  "processSpecificListeners B inner i event args s =
     (case map_of (events s) event of
        None \<Rightarrow> finished i Specific None s
      | Some listeners \<Rightarrow>
          specificLoop B inner i event args listeners
            (s\<lparr>journal := journal s @ [Copied i Specific listeners]\<rparr>))"

text \<open>
  The body of \<^verbatim>\<open>emit\<close> up to its first \<^verbatim>\<open>await\<close>: both fan-outs are started, the wildcard one
  first (without wildcard support its place is taken by \<^verbatim>\<open>Promise.resolve()\<close>), each
  running until it returns, fails or is suspended. The call receives the next serial
  number.
\<close>

definition emitBody :: "handlers \<Rightarrow> dispatch \<Rightarrow> string \<Rightarrow> jsval list \<Rightarrow> hub \<Rightarrow> hub" where
  "emitBody B inner event args s =
     (let i = nextEmit s;
          s0 = s\<lparr>nextEmit := Suc i, journal := journal s @ [Dispatch i event args]\<rparr>;
          s1 = (if wildcardEnabled s0 then processWildcardListeners B inner i event args s0
                else finished i Wildcard None s0)
      in processSpecificListeners B inner i event args s1)"

text \<open>
  \<^verbatim>\<open>emit\<close> called where the stack has room for \<open>n\<close> calls of \<^verbatim>\<open>emit\<close> nested in one another
  (this one included). Without room the call itself fails with the engine's \<^verbatim>\<open>RangeError\<close>,
  thrown at the call site before anything of the body has run. With room the call returns
  its promise and throws nothing: whatever fails inside the body rejects a promise, which
  the journal records (\<open>Finished\<close> with the value), and \<open>emitResult\<close> reads from the journal
  how the promise of the call settles. \<^verbatim>\<open>handleError\<close> gives that promise an empty \<^verbatim>\<open>catch\<close>
  handler, so the rejection of a nested error dispatch has no effect on the dispatch that
  started it.
\<close>

fun emit :: "handlers \<Rightarrow> nat \<Rightarrow> string \<Rightarrow> jsval list \<Rightarrow> hub \<Rightarrow> jsval option \<times> hub" where
  "emit B 0 event args s = (Some RangeError, s)"
| "emit B (Suc n) event args s = (None, emitBody B (emit B n) event args s)"

text \<open>
  The promise that the suspended fan-out number \<open>j\<close> awaits has settled, and the fan-out
  goes on (on a fresh stack with room for \<open>n\<close> nested calls of \<^verbatim>\<open>emit\<close>). When a promise
  settles, and in which order suspended fan-outs go on, is decided outside the dispatcher.
\<close>

definition resume :: "handlers \<Rightarrow> nat \<Rightarrow> nat \<Rightarrow> jsval option \<Rightarrow> hub \<Rightarrow> hub" where
  "resume B n j settled s =
     (if length (suspended s) \<le> j then s
      else
        (case suspended s ! j of
           Task awaited i k event args l rest \<Rightarrow>
             let s0 = s\<lparr>suspended := take j (suspended s) @ drop (Suc j) (suspended s),
                        journal := journal s @ [Awaited i k l settled]\<rparr>
             in (case k of
                   Wildcard \<Rightarrow> wildcardContinue B (emit B n) i event args l rest settled s0
                 | Specific \<Rightarrow> specificContinue B (emit B n) i event args l rest settled s0)))"

text \<open>
  What happens to a dispatcher, one piece of uninterrupted execution after the other: a
  caller calls a method (with room \<open>n\<close> on the stack), or a suspended fan-out goes on.
\<close>

datatype action = Calls call | Settles nat "jsval option"

fun step :: "handlers \<Rightarrow> nat \<times> action \<Rightarrow> hub \<Rightarrow> hub" where
  "step B (n, Calls c) s = snd (perform (emit B n) c s)"
| "step B (n, Settles j settled) s = resume B n j settled s"

fun run :: "handlers \<Rightarrow> (nat \<times> action) list \<Rightarrow> hub \<Rightarrow> hub" where
  "run B [] s = s"
| "run B (a # acts) s = run B acts (step B a s)"

section \<open>Notions used in the statements\<close>

subsection \<open>The order of a listener sequence\<close>

text \<open>
  \<open>before a b\<close>: record \<open>a\<close> has the larger priority, or the same priority and was
  registered earlier (the serial numbers grow with every registration).
\<close>

definition before :: "listener \<Rightarrow> listener \<Rightarrow> bool" where
  "before a b \<longleftrightarrow>
     priority b < priority a \<or> (priority a = priority b \<and> ident a < ident b)"

text \<open>
  A sequence is well ordered below \<open>n\<close> when each record stands \<open>before\<close> every later one
  and the records are distinct objects allocated so far.
\<close>

definition wellOrdered :: "nat \<Rightarrow> listener list \<Rightarrow> bool" where
  "wellOrdered n ls \<longleftrightarrow>
     sorted_wrt before ls \<and> distinct (map ident ls) \<and> list_all (\<lambda>l. ident l < n) ls"

definition invariant :: "hub \<Rightarrow> bool" where
  "invariant s \<longleftrightarrow>
     wellOrdered (nextId s) (wildcardListeners s) \<and>
     list_all (\<lambda>kv. wellOrdered (nextId s) (snd kv)) (events s) \<and>
     distinct (map fst (events s)) \<and>
     ''*'' \<notin> set (map fst (events s))"

text \<open>
  A suspended specific fan-out belongs to an event that had a key when the fan-out
  started, which the wildcard token never has.
\<close>

fun named :: "task \<Rightarrow> bool" where
  "named (Task awaited i k event args l rest) = (k = Wildcard \<or> event \<noteq> ''*'')"

definition sound :: "hub \<Rightarrow> bool" where
  "sound s \<longleftrightarrow> list_all named (suspended s)"

text \<open>
  The states a dispatcher can be found in between two pieces of execution: construction,
  then calls of the public methods by any caller and suspended fan-outs going on, in any
  order.
\<close>

inductive reachable :: "handlers \<Rightarrow> hub \<Rightarrow> bool" for B :: handlers where
  constructed: "reachable B (newEventHub opts)"
| after_on: "reachable B s \<Longrightarrow> reachable B (on event h c p s)"
| after_once: "reachable B s \<Longrightarrow> reachable B (once event h c p s)"
| after_off: "reachable B s \<Longrightarrow> reachable B (off ev f s)"
| after_reset: "reachable B s \<Longrightarrow> reachable B (reset s)"
| after_setMaxListeners: "reachable B s \<Longrightarrow> reachable B (setMaxListeners m s)"
| after_emit: "reachable B s \<Longrightarrow> reachable B (snd (emit B n event args s))"
| after_resume: "reachable B s \<Longrightarrow> reachable B (resume B n j settled s)"

subsection \<open>Reading the journal\<close>

text \<open>The records that fan-out \<open>k\<close> of the \<^verbatim>\<open>emit\<close> call number \<open>i\<close> has invoked, in order.\<close>

fun callOf :: "nat \<Rightarrow> fanout \<Rightarrow> entry \<Rightarrow> listener list" where
  "callOf i k (Invoke i' k' l recv args) = (if i' = i \<and> k' = k then [l] else [])"
| "callOf i k (Dispatch i' event args) = []"
| "callOf i k (Copied i' k' ls) = []"
| "callOf i k (Outcome i' k' l result) = []"
| "callOf i k (Awaited i' k' l settled) = []"
| "callOf i k (Finished i' k' r) = []"
| "callOf i k (Console lvl ns msg) = []"

definition calls :: "nat \<Rightarrow> fanout \<Rightarrow> entry list \<Rightarrow> listener list" where
  "calls i k es = concat (map (callOf i k) es)"

text \<open>
  All handler calls of the \<^verbatim>\<open>emit\<close> call number \<open>i\<close>: fan-out, record, receiver, arguments.
\<close>

fun invocationOf :: "nat \<Rightarrow> entry \<Rightarrow> (fanout \<times> listener \<times> receiver \<times> jsval list) list" where
  "invocationOf i (Invoke i' k l recv args) = (if i' = i then [(k, l, recv, args)] else [])"
| "invocationOf i (Dispatch i' event args) = []"
| "invocationOf i (Copied i' k ls) = []"
| "invocationOf i (Outcome i' k l result) = []"
| "invocationOf i (Awaited i' k l settled) = []"
| "invocationOf i (Finished i' k r) = []"
| "invocationOf i (Console lvl ns msg) = []"

definition invocations ::
  "nat \<Rightarrow> entry list \<Rightarrow> (fanout \<times> listener \<times> receiver \<times> jsval list) list" where
  "invocations i es = concat (map (invocationOf i) es)"

text \<open>How the handler calls of call \<open>i\<close> ended, in order: the handler and the outcome.\<close>

fun outcomeOf :: "nat \<Rightarrow> entry \<Rightarrow> (nat \<times> outcome) list" where
  "outcomeOf i (Outcome i' k l result) = (if i' = i then [(handler l, result)] else [])"
| "outcomeOf i (Dispatch i' event args) = []"
| "outcomeOf i (Copied i' k ls) = []"
| "outcomeOf i (Invoke i' k l recv args) = []"
| "outcomeOf i (Awaited i' k l settled) = []"
| "outcomeOf i (Finished i' k r) = []"
| "outcomeOf i (Console lvl ns msg) = []"

definition outcomes :: "nat \<Rightarrow> entry list \<Rightarrow> (nat \<times> outcome) list" where
  "outcomes i es = concat (map (outcomeOf i) es)"

text \<open>
  The copy that fan-out \<open>k\<close> of call \<open>i\<close> iterates over: the array it copied, or nothing when
  it returned before copying (an empty wildcard array, no key for the event).
\<close>

fun copyOf :: "nat \<Rightarrow> fanout \<Rightarrow> entry \<Rightarrow> listener list list" where
  "copyOf i k (Copied i' k' ls) = (if i' = i \<and> k' = k then [ls] else [])"
| "copyOf i k (Dispatch i' event args) = []"
| "copyOf i k (Invoke i' k' l recv args) = []"
| "copyOf i k (Outcome i' k' l result) = []"
| "copyOf i k (Awaited i' k' l settled) = []"
| "copyOf i k (Finished i' k' r) = []"
| "copyOf i k (Console lvl ns msg) = []"

definition copies :: "nat \<Rightarrow> fanout \<Rightarrow> entry list \<Rightarrow> listener list list" where
  "copies i k es = concat (map (copyOf i k) es)"

definition snapshotOf :: "nat \<Rightarrow> fanout \<Rightarrow> entry list \<Rightarrow> listener list" where
  "snapshotOf i k es = concat (copies i k es)"

text \<open>How the promise of fan-out \<open>k\<close> of call \<open>i\<close> has settled, if it has.\<close>

fun finishOf :: "nat \<Rightarrow> fanout \<Rightarrow> entry \<Rightarrow> jsval option list" where
  "finishOf i k (Finished i' k' r) = (if i' = i \<and> k' = k then [r] else [])"
| "finishOf i k (Dispatch i' event args) = []"
| "finishOf i k (Copied i' k' ls) = []"
| "finishOf i k (Invoke i' k' l recv args) = []"
| "finishOf i k (Outcome i' k' l result) = []"
| "finishOf i k (Awaited i' k' l settled) = []"
| "finishOf i k (Console lvl ns msg) = []"

definition finishes :: "nat \<Rightarrow> fanout \<Rightarrow> entry list \<Rightarrow> jsval option list" where
  "finishes i k es = concat (map (finishOf i k) es)"

text \<open>The values with which fan-outs of call \<open>i\<close> were rejected, in order.\<close>

fun failureOf :: "nat \<Rightarrow> entry \<Rightarrow> jsval list" where
  "failureOf i (Finished i' k (Some e)) = (if i' = i then [e] else [])"
| "failureOf i (Finished i' k None) = []"
| "failureOf i (Dispatch i' event args) = []"
| "failureOf i (Copied i' k ls) = []"
| "failureOf i (Invoke i' k l recv args) = []"
| "failureOf i (Outcome i' k l result) = []"
| "failureOf i (Awaited i' k l settled) = []"
| "failureOf i (Console lvl ns msg) = []"

definition failures :: "nat \<Rightarrow> entry list \<Rightarrow> jsval list" where
  "failures i es = concat (map (failureOf i) es)"

text \<open>
  The promise that the \<^verbatim>\<open>emit\<close> call number \<open>i\<close> returned, in the state \<open>s\<close>. In asynchronous
  mode \<^verbatim>\<open>emit\<close> awaits \<^verbatim>\<open>Promise.all\<close> of the two fan-out promises: that is rejected with the
  first rejection and fulfilled when both are. Otherwise \<^verbatim>\<open>emit\<close> awaits the wildcard
  promise and then the specific one. After either, \<^verbatim>\<open>emit\<close> returns \<^verbatim>\<open>true\<close>.
\<close>

datatype promiseState = Pending | Resolved jsval | Rejected jsval

definition emitResult :: "nat \<Rightarrow> hub \<Rightarrow> promiseState" where
  "emitResult i s =
     (if asyncEnabled s
      then (case failures i (journal s) of
              e # others \<Rightarrow> Rejected e
            | [] \<Rightarrow>
                if finishes i Wildcard (journal s) \<noteq> [] \<and>
                   finishes i Specific (journal s) \<noteq> []
                then Resolved (Bool True) else Pending)
      else (case finishes i Wildcard (journal s) of
              [] \<Rightarrow> Pending
            | Some e # ws \<Rightarrow> Rejected e
            | None # ws \<Rightarrow>
                (case finishes i Specific (journal s) of
                   [] \<Rightarrow> Pending
                 | Some e # ss \<Rightarrow> Rejected e
                 | None # ss \<Rightarrow> Resolved (Bool True))))"

text \<open>The calls of \<^verbatim>\<open>emit\<close> in the journal: number, event name, arguments.\<close>

fun dispatchOf :: "entry \<Rightarrow> (nat \<times> string \<times> jsval list) list" where
  "dispatchOf (Dispatch i event args) = [(i, event, args)]"
| "dispatchOf (Copied i k ls) = []"
| "dispatchOf (Invoke i k l recv args) = []"
| "dispatchOf (Outcome i k l result) = []"
| "dispatchOf (Awaited i k l settled) = []"
| "dispatchOf (Finished i k r) = []"
| "dispatchOf (Console lvl ns msg) = []"

definition dispatches :: "entry list \<Rightarrow> (nat \<times> string \<times> jsval list) list" where
  "dispatches es = concat (map dispatchOf es)"

text \<open>The lines on the console.\<close>

fun lineOf :: "entry \<Rightarrow> (level \<times> message) list" where
  "lineOf (Console lvl ns msg) = [(lvl, msg)]"
| "lineOf (Dispatch i event args) = []"
| "lineOf (Copied i k ls) = []"
| "lineOf (Invoke i k l recv args) = []"
| "lineOf (Outcome i k l result) = []"
| "lineOf (Awaited i k l settled) = []"
| "lineOf (Finished i k r) = []"

definition console :: "entry list \<Rightarrow> (level \<times> message) list" where
  "console es = concat (map lineOf es)"

text \<open>The suspended fan-outs \<open>k\<close> of call \<open>i\<close> and the records they still have to invoke.\<close>

fun taskOf :: "nat \<Rightarrow> fanout \<Rightarrow> task \<Rightarrow> bool" where
  "taskOf i k (Task awaited i' k' event args l rest) = (i' = i \<and> k' = k)"

fun remaining :: "task \<Rightarrow> listener list" where
  "remaining (Task awaited i k event args l rest) = rest"

definition waiting :: "nat \<Rightarrow> fanout \<Rightarrow> hub \<Rightarrow> task list" where
  "waiting i k s = filter (taskOf i k) (suspended s)"

subsection \<open>Where an entry comes from\<close>

text \<open>The number of the \<^verbatim>\<open>emit\<close> call that an entry or a suspended fan-out belongs to.\<close>

fun serial :: "entry \<Rightarrow> nat option" where
  "serial (Dispatch i event args) = Some i"
| "serial (Copied i k ls) = Some i"
| "serial (Invoke i k l recv args) = Some i"
| "serial (Outcome i k l result) = Some i"
| "serial (Awaited i k l settled) = Some i"
| "serial (Finished i k r) = Some i"
| "serial (Console lvl ns msg) = None"

fun taskSerial :: "task \<Rightarrow> nat" where
  "taskSerial (Task awaited i k event args l rest) = i"

text \<open>
  \<open>since m e\<close>: the entry belongs to a call numbered \<open>m\<close> or later, or is a console line;
  \<open>below n e\<close>: it belongs to a call numbered below \<open>n\<close>, or is a console line.
  \<open>own i k a e\<close>: the entry is one that fan-out \<open>k\<close> of call \<open>i\<close> writes for a handler call
  with the arguments \<open>a\<close>, or for its own end.
\<close>

definition since :: "nat \<Rightarrow> entry \<Rightarrow> bool" where
  "since m e \<longleftrightarrow> (case serial e of None \<Rightarrow> True | Some i \<Rightarrow> m \<le> i)"

definition below :: "nat \<Rightarrow> entry \<Rightarrow> bool" where
  "below n e \<longleftrightarrow> (case serial e of None \<Rightarrow> True | Some i \<Rightarrow> i < n)"

fun own :: "nat \<Rightarrow> fanout \<Rightarrow> jsval list \<Rightarrow> entry \<Rightarrow> bool" where
  "own i k a (Invoke i' k' l recv args) =
     (i' = i \<and> k' = k \<and> recv = receiverOf l \<and> args = a)"
| "own i k a (Outcome i' k' l result) = (i' = i \<and> k' = k)"
| "own i k a (Finished i' k' r) = (i' = i \<and> k' = k)"
| "own i k a (Awaited i' k' l settled) = False"
| "own i k a (Dispatch i' event args) = False"
| "own i k a (Copied i' k' ls) = False"
| "own i k a (Console lvl ns msg) = False"


definition later :: "nat \<Rightarrow> task \<Rightarrow> bool" where
  "later m t \<longleftrightarrow> m \<le> taskSerial t"

text \<open>
  What a fan-out \<open>k\<close> of call \<open>i\<close> can write while calls numbered \<open>m\<close> or later are made
  inside it: its own entries and theirs.
\<close>

definition mine :: "nat \<Rightarrow> fanout \<Rightarrow> jsval list \<Rightarrow> nat \<Rightarrow> entry \<Rightarrow> bool" where
  "mine i k a m e \<longleftrightarrow> own i k a e \<or> since m e"


text \<open>
  \<open>extends P Q s s'\<close>: from \<open>s\<close> to \<open>s'\<close> the journal has grown by entries that satisfy \<open>P\<close>, the
  suspended fan-outs by ones that satisfy \<open>Q\<close>, all of them belonging to calls made by then,
  and no serial number was taken back.
\<close>

definition extends :: "(entry \<Rightarrow> bool) \<Rightarrow> (task \<Rightarrow> bool) \<Rightarrow> hub \<Rightarrow> hub \<Rightarrow> bool" where
  "extends P Q s s' \<longleftrightarrow>
     nextEmit s \<le> nextEmit s' \<and>
     (\<exists>es. journal s' = journal s @ es \<and>
           list_all (\<lambda>e. P e \<and> below (nextEmit s') e) es) \<and>
     (\<exists>ts. suspended s' = suspended s @ ts \<and>
           list_all (\<lambda>t. Q t \<and> taskSerial t < nextEmit s') ts)"





subsection \<open>The common shape of the two loops\<close>

text \<open>
  \<^verbatim>\<open>processWildcardListeners\<close> and \<^verbatim>\<open>processSpecificListeners\<close> run the same loop; they
  differ in the arguments they pass and in the array a one-shot record is filtered out of.
  \<open>fanoutLoop\<close> is that loop with the fan-out as a parameter; the lemmas
  \<open>wildcardLoop_fanoutLoop\<close> and \<open>specificLoop_fanoutLoop\<close> show that each loop of the source
  is an instance, and likewise for the function going on after an \<^verbatim>\<open>await\<close>.
\<close>

fun handlerArgs :: "fanout \<Rightarrow> string \<Rightarrow> jsval list \<Rightarrow> jsval list" where
  "handlerArgs Wildcard event args = Str event # args"
| "handlerArgs Specific event args = args"

fun prune :: "fanout \<Rightarrow> string \<Rightarrow> listener \<Rightarrow> hub \<Rightarrow> hub" where
  "prune Wildcard event l s = pruneWildcard l s"
| "prune Specific event l s = pruneSpecific event l s"

fun fanoutLoop ::
  "handlers \<Rightarrow> dispatch \<Rightarrow> nat \<Rightarrow> fanout \<Rightarrow> string \<Rightarrow> jsval list \<Rightarrow> listener list \<Rightarrow> hub \<Rightarrow> hub" where
  "fanoutLoop B inner i k event args [] s = finished i k None s"
| "fanoutLoop B inner i k event args (l # rest) s =
     (case invoke B inner i k l (handlerArgs k event args) s of
        (Returns result, s1) \<Rightarrow>
          if asyncEnabled s1 \<and> isPromise result
          then s1\<lparr>suspended := suspended s1 @ [Task result i k event args l rest]\<rparr>
          else fanoutLoop B inner i k event args rest
                 (if isOnce l then prune k event l s1 else s1)
      | (Throws error, s1) \<Rightarrow>
          (case handleError inner error event (handler l) s1 of
             (None, s2) \<Rightarrow> fanoutLoop B inner i k event args rest s2
           | (Some e, s2) \<Rightarrow> finished i k (Some e) s2))"

definition fanoutContinue ::
  "handlers \<Rightarrow> dispatch \<Rightarrow> nat \<Rightarrow> fanout \<Rightarrow> string \<Rightarrow> jsval list \<Rightarrow> listener \<Rightarrow> listener list
     \<Rightarrow> jsval option \<Rightarrow> hub \<Rightarrow> hub" where
  "fanoutContinue B inner i k event args l rest settled s =
     (case settled of
        None \<Rightarrow>
          fanoutLoop B inner i k event args rest (if isOnce l then prune k event l s else s)
      | Some error \<Rightarrow>
          (case handleError inner error event (handler l) s of
             (None, s2) \<Rightarrow> fanoutLoop B inner i k event args rest s2
           | (Some e, s2) \<Rightarrow> finished i k (Some e) s2))"

subsection \<open>How far a fan-out has come\<close>




subsection \<open>Classes of handlers\<close>




subsection \<open>Further readings of the state\<close>

text \<open>The sequence that \<^verbatim>\<open>listenerCount\<close> measures.\<close>

definition listenersOf :: "string \<Rightarrow> hub \<Rightarrow> listener list" where
  "listenersOf event s =
     (if event = ''*'' \<and> wildcardEnabled s then wildcardListeners s
      else (case map_of (events s) event of Some ls \<Rightarrow> ls | None \<Rightarrow> []))"

text \<open>The array that the map holds for an event, empty when there is no key.\<close>

definition registered :: "string \<Rightarrow> hub \<Rightarrow> listener list" where
  "registered event s = (case map_of (events s) event of Some ls \<Rightarrow> ls | None \<Rightarrow> [])"

text \<open>
  The state in which the specific fan-out of an \<^verbatim>\<open>emit\<close> starts: the call has received its
  number and the wildcard fan-out has run as far as it goes.
\<close>

definition wildcardPhase :: "handlers \<Rightarrow> dispatch \<Rightarrow> string \<Rightarrow> jsval list \<Rightarrow> hub \<Rightarrow> hub" where
  "wildcardPhase B inner event args s =
     (let i = nextEmit s;
          s0 = s\<lparr>nextEmit := Suc i, journal := journal s @ [Dispatch i event args]\<rparr>
      in if wildcardEnabled s0 then processWildcardListeners B inner i event args s0
         else finished i Wildcard None s0)"

section \<open>Concrete dispatchers and handlers\<close>

text \<open>Handlers that do nothing and return \<^verbatim>\<open>undefined\<close>.\<close>

definition calm :: handlers where
  "calm h s recv args = ([], Returns Undefined)"

text \<open>Closure 1 throws the string \<^verbatim>\<open>'boom'\<close>; every other closure returns.\<close>

definition faulty :: handlers where
  "faulty h s recv args =
     (if h = 1 then ([], Throws (Str ''boom'')) else ([], Returns Undefined))"

text \<open>Closure 1 throws a symbol (\<^verbatim>\<open>throw Symbol('boom')\<close>); every other closure returns.\<close>

definition symbolic :: handlers where
  "symbolic h s recv args =
     (if h = 1 then ([], Throws (Sym 0)) else ([], Returns Undefined))"

text \<open>Closure 1 returns a promise (number 0); every other closure returns.\<close>

definition slow :: handlers where
  "slow h s recv args =
     (if h = 1 then ([], Returns (Promise 0)) else ([], Returns Undefined))"

text \<open>A one-shot listener on \<^verbatim>\<open>'x'\<close> whose handler is closure 1.\<close>

definition onceHub :: hub where
  "onceHub = once ''x'' 1 Undefined 0 (newEventHub noOptions)"

text \<open>
  Three listeners on \<^verbatim>\<open>'task'\<close>: closure 11 at priority 1, closure 12 at priority 10, then
  closure 13 at priority 1.
\<close>

definition taskHub :: hub where
  "taskHub =
     on ''task'' 13 Undefined 1
       (on ''task'' 12 Undefined 10
          (on ''task'' 11 Undefined 1 (newEventHub noOptions)))"

text \<open>
  An \<^verbatim>\<open>'error'\<close> listener (closure 3), and on \<^verbatim>\<open>'x'\<close> closure 1 followed by closure 2.
\<close>

definition guardedHub :: hub where
  "guardedHub =
     on ''x'' 2 Undefined 0
       (on ''x'' 1 Undefined 0
          (on ''error'' 3 Undefined 0 (newEventHub noOptions)))"

text \<open>On \<^verbatim>\<open>'x'\<close> closure 1 followed by closure 2, and nothing else.\<close>

definition pairHub :: hub where
  "pairHub = on ''x'' 2 Undefined 0 (on ''x'' 1 Undefined 0 (newEventHub noOptions))"

text \<open>The same with \<^verbatim>\<open>enableAsync: false\<close>.\<close>

definition plainHub :: hub where
  "plainHub =
     on ''x'' 2 Undefined 0
       (on ''x'' 1 Undefined 0 (newEventHub (noOptions\<lparr>optEnableAsync := Some False\<rparr>)))"

text \<open>
  A dispatcher in debug mode with closure 1 on \<^verbatim>\<open>'x'\<close> and a wildcard listener (closure 2);
  and the same after an \<^verbatim>\<open>'error'\<close> listener was registered and removed again by reference.
\<close>

definition debugHub :: hub where
  "debugHub =
     on ''x'' 1 Undefined 0
       (on ''*'' 2 Undefined 0 (newEventHub (noOptions\<lparr>optDebug := Some True\<rparr>)))"

definition staleHub :: hub where
  "staleHub =
     on ''x'' 1 Undefined 0
       (on ''*'' 2 Undefined 0
          (off (Some ''error'') (Some 3)
             (on ''error'' 3 Undefined 0
                (newEventHub (noOptions\<lparr>optDebug := Some True\<rparr>)))))"

text \<open>Wildcard support disabled; one listener on \<^verbatim>\<open>'a'\<close>.\<close>

definition strictHub :: hub where
  "strictHub =
     on ''a'' 1 Undefined 0 (newEventHub (noOptions\<lparr>optWildcard := Some False\<rparr>))"

text \<open>\<^verbatim>\<open>maxListeners: 1\<close> and one listener on \<^verbatim>\<open>'a'\<close>.\<close>

definition fullHub :: hub where
  "fullHub = on ''a'' 1 Undefined 0 (newEventHub (noOptions\<lparr>optMaxListeners := Some 1\<rparr>))"

text \<open>
  A wildcard listener bound to an object, three listeners on \<^verbatim>\<open>'a'\<close> (closure 2 twice) and
  one on \<^verbatim>\<open>'b'\<close>.
\<close>

definition mixedHub :: hub where
  "mixedHub =
     on ''b'' 3 Undefined 0
       (on ''a'' 2 Undefined 5
          (on ''a'' 1 Undefined 0
             (on ''a'' 2 Undefined 0
                (on ''*'' 4 (Obj 7) 0 (newEventHub noOptions)))))"

text \<open>One wildcard listener, registered on the wildcard token with the default options.\<close>

definition wildcardOnlyHub :: hub where
  "wildcardOnlyHub = on ''*'' 1 Undefined 0 (newEventHub noOptions)"

text \<open>
  \<open>onceHub\<close> after \<^verbatim>\<open>emit('x')\<close> when closure 1 returns (the record is pruned, the key stays)
  and when closure 1 throws (nothing but the journal and the serial number of the call has
  changed).
\<close>

definition prunedHub :: hub where
  "prunedHub =
     onceHub\<lparr>events := [(''x'', [])],
             nextEmit := 1,
             journal :=
               [Dispatch 0 ''x'' [],
                Finished 0 Wildcard None,
                Copied 0 Specific
                  [\<lparr>handler = 1, isOnce = True, priority = 0, boundContext = Undefined,
                     ident = 0\<rparr>],
                Invoke 0 Specific
                  \<lparr>handler = 1, isOnce = True, priority = 0, boundContext = Undefined,
                    ident = 0\<rparr>
                  This [],
                Outcome 0 Specific
                  \<lparr>handler = 1, isOnce = True, priority = 0, boundContext = Undefined,
                    ident = 0\<rparr>
                  (Returns Undefined),
                Finished 0 Specific None]\<rparr>"

definition thrownHub :: hub where
  "thrownHub =
     onceHub\<lparr>nextEmit := 1,
             journal :=
               [Dispatch 0 ''x'' [],
                Finished 0 Wildcard None,
                Copied 0 Specific
                  [\<lparr>handler = 1, isOnce = True, priority = 0, boundContext = Undefined,
                     ident = 0\<rparr>],
                Invoke 0 Specific
                  \<lparr>handler = 1, isOnce = True, priority = 0, boundContext = Undefined,
                    ident = 0\<rparr>
                  This [],
                Outcome 0 Specific
                  \<lparr>handler = 1, isOnce = True, priority = 0, boundContext = Undefined,
                    ident = 0\<rparr>
                  (Throws (Str ''boom'')),
                Finished 0 Specific None]\<rparr>"

text \<open>
  \<open>onceHub\<close> after \<^verbatim>\<open>emit('x')\<close> when closure 1 returns a promise: the specific fan-out is
  suspended.
\<close>

definition awaitingHub :: hub where
  "awaitingHub =
     onceHub\<lparr>nextEmit := 1,
             suspended :=
               [Task (Promise 0) 0 Specific ''x'' []
                  \<lparr>handler = 1, isOnce = True, priority = 0, boundContext = Undefined,
                    ident = 0\<rparr>
                  []],
             journal :=
               [Dispatch 0 ''x'' [],
                Finished 0 Wildcard None,
                Copied 0 Specific
                  [\<lparr>handler = 1, isOnce = True, priority = 0, boundContext = Undefined,
                     ident = 0\<rparr>],
                Invoke 0 Specific
                  \<lparr>handler = 1, isOnce = True, priority = 0, boundContext = Undefined,
                    ident = 0\<rparr>
                  This [],
                Outcome 0 Specific
                  \<lparr>handler = 1, isOnce = True, priority = 0, boundContext = Undefined,
                    ident = 0\<rparr>
                  (Returns (Promise 0))]\<rparr>"

section \<open>Auxiliary facts\<close>

subsection \<open>Running the model on concrete dispatchers\<close>

lemmas run_defs =
  newEventHub_def noOptions_def on_def once_def off_def reset_def addListener_def
  getTotalListenerCount_def insertListenerByPriority_def log_def
  emitBody_def processWildcardListeners_def processSpecificListeners_def
  invoke_def receiverOf_def handleError_def finished_def pruneWildcard_def pruneSpecific_def
  resume_def wildcardContinue_def specificContinue_def
  hasEvent_def listenerCount_def eventNames_def listenersOf_def registered_def

lemmas read_defs =
  calls_def invocations_def outcomes_def copies_def snapshotOf_def finishes_def failures_def
  emitResult_def dispatches_def console_def waiting_def

subsection \<open>Readings of a journal that grows\<close>

lemma calls_append [simp]: "calls i k (xs @ ys) = calls i k xs @ calls i k ys"
  by (simp add: calls_def)

lemma calls_Nil [simp]: "calls i k [] = []"
  by (simp add: calls_def)

lemma calls_Cons [simp]: "calls i k (e # es) = callOf i k e @ calls i k es"
  by (simp add: calls_def)

lemma invocations_append [simp]:
  "invocations i (xs @ ys) = invocations i xs @ invocations i ys"
  by (simp add: invocations_def)

lemma invocations_Nil [simp]: "invocations i [] = []"
  by (simp add: invocations_def)

lemma invocations_Cons [simp]: "invocations i (e # es) = invocationOf i e @ invocations i es"
  by (simp add: invocations_def)

lemma copies_append [simp]: "copies i k (xs @ ys) = copies i k xs @ copies i k ys"
  by (simp add: copies_def)

lemma copies_Nil [simp]: "copies i k [] = []"
  by (simp add: copies_def)

lemma copies_Cons [simp]: "copies i k (e # es) = copyOf i k e @ copies i k es"
  by (simp add: copies_def)

lemma finishes_append [simp]: "finishes i k (xs @ ys) = finishes i k xs @ finishes i k ys"
  by (simp add: finishes_def)

lemma finishes_Nil [simp]: "finishes i k [] = []"
  by (simp add: finishes_def)

lemma finishes_Cons [simp]: "finishes i k (e # es) = finishOf i k e @ finishes i k es"
  by (simp add: finishes_def)

lemma failures_append [simp]: "failures i (xs @ ys) = failures i xs @ failures i ys"
  by (simp add: failures_def)

lemma failures_Nil [simp]: "failures i [] = []"
  by (simp add: failures_def)

lemma failures_Cons [simp]: "failures i (e # es) = failureOf i e @ failures i es"
  by (simp add: failures_def)

lemma snapshotOf_append [simp]:
  "snapshotOf i k (xs @ ys) = snapshotOf i k xs @ snapshotOf i k ys"
  by (simp add: snapshotOf_def)

text \<open>Entries of other calls do not show in the readings for call \<open>i\<close>.\<close>

lemma since_reads:
  assumes "since m e" and "i < m"
  shows "callOf i k e = []" and "copyOf i k e = []" and "finishOf i k e = []"
    and "invocationOf i e = []" and "failureOf i e = []"
proof -
  show "callOf i k e = []" using assms by (cases e) (auto simp: since_def)
  show "copyOf i k e = []" using assms by (cases e) (auto simp: since_def)
  show "finishOf i k e = []" using assms by (cases e) (auto simp: since_def)
  show "invocationOf i e = []" using assms by (cases e) (auto simp: since_def)
  show "failureOf i e = []" using assms
    by (cases "(i, e)" rule: failureOf.cases) (auto simp: since_def)
qed

lemma since_all_reads:
  assumes "list_all (since m) es" and "i < m"
  shows "calls i k es = []" and "copies i k es = []" and "finishes i k es = []"
    and "invocations i es = []" and "failures i es = []"
  using assms by (induction es) (auto simp: since_reads)



lemma findIndex_split:
  "(case findIndex P xs of None \<Rightarrow> xs @ [x] | Some i \<Rightarrow> take i xs @ [x] @ drop i xs)
     = takeWhile (\<lambda>y. \<not> P y) xs @ x # dropWhile (\<lambda>y. \<not> P y) xs"
  by (induction xs) (auto split: option.splits)

lemma insertListenerByPriority_eq:
  "insertListenerByPriority ls x =
     takeWhile (\<lambda>l. \<not> priority l < priority x) ls @ x # dropWhile (\<lambda>l. \<not> priority l < priority x) ls"
  unfolding insertListenerByPriority_def by (rule findIndex_split)

lemma length_insertListenerByPriority [simp]:
  "length (insertListenerByPriority ls x) = Suc (length ls)"
proof -
  have "length (takeWhile (\<lambda>l. \<not> priority l < priority x) ls) +
        length (dropWhile (\<lambda>l. \<not> priority l < priority x) ls) = length ls"
    by (metis length_append takeWhile_dropWhile_id)
  then show ?thesis by (simp add: insertListenerByPriority_eq)
qed

lemma set_insertListenerByPriority [simp]:
  "set (insertListenerByPriority ls x) = insert x (set ls)"
proof -
  have "set (takeWhile (\<lambda>l. \<not> priority l < priority x) ls) \<union>
        set (dropWhile (\<lambda>l. \<not> priority l < priority x) ls) = set ls"
    by (metis set_append takeWhile_dropWhile_id)
  then show ?thesis by (auto simp add: insertListenerByPriority_eq)
qed

lemma distinct_ident_insert:
  assumes "distinct (map ident ls)" and "ident x \<notin> ident ` set ls"
  shows "distinct (map ident (insertListenerByPriority ls x))"
proof -
  let ?tw = "takeWhile (\<lambda>l. \<not> priority l < priority x) ls"
  let ?dw = "dropWhile (\<lambda>l. \<not> priority l < priority x) ls"
  have "distinct (map ident (?tw @ ?dw))"
    using assms(1) by (simp only: takeWhile_dropWhile_id)
  then have d: "distinct (map ident ?tw)" "distinct (map ident ?dw)"
    "ident ` set ?tw \<inter> ident ` set ?dw = {}"
    by (simp_all only: map_append distinct_append set_map)
  have "set ?tw \<subseteq> set ls" "set ?dw \<subseteq> set ls"
    by (auto dest: set_takeWhileD set_dropWhileD)
  with assms(2) have "ident x \<notin> ident ` set ?tw" "ident x \<notin> ident ` set ?dw"
    by auto
  with d show ?thesis
    by (simp add: insertListenerByPriority_eq)
qed

lemma sorted_wrt_before_insert:
  assumes "sorted_wrt before ls" and "\<forall>l\<in>set ls. ident l < ident x"
  shows "sorted_wrt before (insertListenerByPriority ls x)"
  using assms
proof (induction ls)
  case Nil
  then show ?case by (simp add: insertListenerByPriority_eq)
next
  case (Cons a ls)
  show ?case
  proof (cases "priority a < priority x")
    case True
    have "\<forall>y\<in>set ls. priority y \<le> priority a"
      using Cons.prems(1) by (auto simp: before_def)
    with True have "\<forall>y\<in>set (a # ls). before x y"
      by (auto simp: before_def)
    with True Cons.prems show ?thesis
      by (simp add: insertListenerByPriority_eq)
  next
    case False
    have ih: "sorted_wrt before (insertListenerByPriority ls x)"
      using Cons by simp
    have "before a x" using False Cons.prems(2) by (auto simp: before_def)
    moreover have "\<forall>y\<in>set ls. before a y" using Cons.prems(1) by simp
    ultimately have "\<forall>y\<in>set (insertListenerByPriority ls x). before a y" by simp
    with ih False show ?thesis
      by (simp add: insertListenerByPriority_eq)
  qed
qed

lemma wellOrdered_Nil [simp]: "wellOrdered n []"
  by (simp add: wellOrdered_def)

lemma wellOrdered_mono: "wellOrdered n ls \<Longrightarrow> n \<le> m \<Longrightarrow> wellOrdered m ls"
  by (auto simp: wellOrdered_def list_all_iff)

lemma wellOrdered_filter: "wellOrdered n ls \<Longrightarrow> wellOrdered n (filter P ls)"
  by (auto simp: wellOrdered_def list_all_iff sorted_wrt_filter distinct_map_filter)

lemma wellOrdered_insert:
  assumes "wellOrdered n ls" and "ident x = n"
  shows "wellOrdered (Suc n) (insertListenerByPriority ls x)"
proof -
  have lt: "\<forall>l\<in>set ls. ident l < ident x"
    using assms by (auto simp: wellOrdered_def list_all_iff)
  have "sorted_wrt before (insertListenerByPriority ls x)"
    using assms lt by (intro sorted_wrt_before_insert) (auto simp: wellOrdered_def)
  moreover have "distinct (map ident (insertListenerByPriority ls x))"
    using assms lt by (intro distinct_ident_insert) (auto simp: wellOrdered_def)
  moreover have "list_all (\<lambda>l. ident l < Suc n) (insertListenerByPriority ls x)"
    using assms by (auto simp: wellOrdered_def list_all_iff less_Suc_eq)
  ultimately show ?thesis by (simp add: wellOrdered_def)
qed

subsection \<open>The invariant under registration, removal and reset\<close>

lemma set_update_subset: "set (AList.update k v al) \<subseteq> insert (k, v) (set al)"
  by (induction al) auto

lemma list_all_update:
  "list_all P al \<Longrightarrow> P (k, v) \<Longrightarrow> list_all P (AList.update k v al)"
  using set_update_subset [of k v al] by (auto simp: list_all_iff)

lemma list_all_delete: "list_all P al \<Longrightarrow> list_all P (AList.delete k al)"
  by (auto simp: list_all_iff AList.delete_eq)

lemma keys_update: "set (map fst (AList.update k v al)) = insert k (set (map fst al))"
  using AList.dom_update [of k v al] by simp

lemma keys_delete_subset: "set (map fst (AList.delete k al)) \<subseteq> set (map fst al)"
  using AList.dom_delete_subset [of k al] by simp

lemma invariant_lookup:
  "invariant s \<Longrightarrow> map_of (events s) event = Some ls \<Longrightarrow>
     wellOrdered (nextId s) ls \<and> event \<noteq> ''*''"
  by (auto simp: invariant_def list_all_iff dest!: map_of_SomeD) (metis fst_conv image_eqI)

lemma invariant_journal [simp]: "invariant (s\<lparr>journal := j\<rparr>) = invariant s"
  by (simp add: invariant_def)

lemma invariant_suspended [simp]: "invariant (s\<lparr>suspended := x\<rparr>) = invariant s"
  by (simp add: invariant_def)

lemma invariant_nextEmit [simp]: "invariant (s\<lparr>nextEmit := x\<rparr>) = invariant s"
  by (simp add: invariant_def)

lemma invariant_maxListeners [simp]: "invariant (s\<lparr>maxListeners := m\<rparr>) = invariant s"
  by (simp add: invariant_def)

lemma invariant_newEventHub: "invariant (newEventHub opts)"
  by (simp add: invariant_def newEventHub_def)

lemma invariant_reset: "invariant s \<Longrightarrow> invariant (reset s)"
  by (simp add: invariant_def reset_def)

lemma invariant_setMaxListeners: "invariant s \<Longrightarrow> invariant (setMaxListeners m s)"
  by (simp add: setMaxListeners_def)

lemma invariant_log [simp]: "invariant (log msg lvl s) = invariant s"
  by (simp add: log_def)

lemma log_fields [simp]:
  "events (log msg lvl s) = events s"
  "wildcardListeners (log msg lvl s) = wildcardListeners s"
  "nextId (log msg lvl s) = nextId s"
  "wildcardEnabled (log msg lvl s) = wildcardEnabled s"
  "maxListeners (log msg lvl s) = maxListeners s"
  "debugMode (log msg lvl s) = debugMode s"
  "asyncEnabled (log msg lvl s) = asyncEnabled s"
  "nextEmit (log msg lvl s) = nextEmit s"
  "suspended (log msg lvl s) = suspended s"
  by (simp_all add: log_def)

lemma invariant_set_wildcard:
  "invariant s \<Longrightarrow> wellOrdered (nextId s) ls \<Longrightarrow> invariant (s\<lparr>wildcardListeners := ls\<rparr>)"
  by (simp add: invariant_def)

lemma invariant_set_event:
  assumes "invariant s" and "wellOrdered (nextId s) ls" and "event \<noteq> ''*''"
  shows "invariant (s\<lparr>events := AList.update event ls (events s)\<rparr>)"
  using assms
  by (simp add: invariant_def list_all_update AList.distinct_update keys_update
           del: set_map)

lemma invariant_delete_event:
  assumes "invariant s"
  shows "invariant (s\<lparr>events := AList.delete event (events s)\<rparr>)"
  using assms keys_delete_subset [of event "events s"]
  by (auto simp add: invariant_def list_all_delete AList.distinct_delete simp del: set_map)

lemma invariant_bump:
  assumes "invariant s"
  shows "list_all (\<lambda>kv. wellOrdered (Suc (nextId s)) (snd kv)) (events s)"
    and "wellOrdered (Suc (nextId s)) (wildcardListeners s)"
  using assms by (auto simp: invariant_def list_all_iff intro: wellOrdered_mono)

lemma invariant_addListener:
  assumes "invariant s"
  shows "invariant (addListener event h one c p s)"
proof (cases "event = ''*'' \<and> \<not> wildcardEnabled s")
  case True
  then show ?thesis using assms by (simp add: addListener_def)
next
  case False
  define s1 where "s1 = (if int (getTotalListenerCount s) \<ge> maxListeners s
                  then log (MaxListenersExceededWarning (maxListeners s)) LevelWarn s
                  else s)"
  define x where "x = \<lparr> handler = h, isOnce = one, priority = p,
                            boundContext = c, ident = nextId s1 \<rparr>"
  define s2 where "s2 = s1\<lparr>nextId := Suc (nextId s1)\<rparr>"
  have inv1: "invariant s1" using assms by (simp add: s1_def)
  have ev2: "events s2 = events s1" "wildcardListeners s2 = wildcardListeners s1"
    "nextId s2 = Suc (nextId s1)"
    by (simp_all add: s2_def)
  have idx: "ident x = nextId s1" by (simp add: x_def)
  have inv2: "invariant s2"
    using inv1 invariant_bump [OF inv1] by (simp add: invariant_def ev2)
  show ?thesis
  proof (cases "event = ''*''")
    case True
    have "wellOrdered (nextId s2) (insertListenerByPriority (wildcardListeners s2) x)"
      using inv1 idx by (simp add: ev2 wellOrdered_insert invariant_def)
    then have "invariant (s2\<lparr>wildcardListeners := insertListenerByPriority (wildcardListeners s2) x\<rparr>)"
      using inv2 by (rule invariant_set_wildcard [rotated])
    then show ?thesis
      unfolding addListener_def Let_def
      unfolding s1_def [symmetric]
      unfolding x_def [symmetric]
      unfolding s2_def [symmetric]
      using True False by simp
  next
    case ne: False
    define s3 where "s3 = (if map_of (events s2) event = None
                       then s2\<lparr>events := AList.update event [] (events s2)\<rparr>
                       else s2)"
    have inv3: "invariant s3"
      using inv2 ne by (simp add: s3_def invariant_set_event)
    have n3: "nextId s3 = Suc (nextId s1)" by (simp add: s3_def ev2)
    have "invariant (case map_of (events s3) event of
                   None \<Rightarrow> s3
                 | Some listeners \<Rightarrow>
                     s3\<lparr>events := AList.update event
                          (insertListenerByPriority listeners x) (events s3)\<rparr>)"
    proof (cases "map_of (events s3) event")
      case None
      then show ?thesis using inv3 by simp
    next
      case (Some ls)
      have "wellOrdered (nextId s1) ls"
      proof (cases "map_of (events s2) event")
        case None
        then have "ls = []" using Some by (simp add: s3_def AList.update_conv')
        then show ?thesis by simp
      next
        case (Some ls')
        then have "map_of (events s1) event = Some ls" using \<open>map_of (events s3) event = Some ls\<close>
          by (simp add: s3_def ev2)
        then show ?thesis using invariant_lookup [OF inv1] by simp
      qed
      then have "wellOrdered (nextId s3) (insertListenerByPriority ls x)"
        using idx by (simp add: n3 wellOrdered_insert)
      then show ?thesis using Some inv3 ne by (simp add: invariant_set_event)
    qed
    then show ?thesis
      unfolding addListener_def Let_def
      unfolding s1_def [symmetric]
      unfolding x_def [symmetric]
      unfolding s2_def [symmetric]
      unfolding s3_def [symmetric]
      using ne False by simp
  qed
qed

lemma invariant_on: "invariant s \<Longrightarrow> invariant (on event h c p s)"
  by (simp add: on_def invariant_addListener)

lemma invariant_once: "invariant s \<Longrightarrow> invariant (once event h c p s)"
  by (simp add: once_def invariant_addListener)

lemma invariant_filter_wildcard:
  "invariant s \<Longrightarrow> invariant (s\<lparr>wildcardListeners := filter P (wildcardListeners s)\<rparr>)"
  by (simp add: invariant_def wellOrdered_filter)

lemma invariant_filter_event:
  assumes "invariant s" and "event \<noteq> ''*''"
  shows "invariant (s\<lparr>events := AList.update event
           (filter P (case map_of (events s) event of Some cur \<Rightarrow> cur | None \<Rightarrow> []))
           (events s)\<rparr>)"
proof -
  have "wellOrdered (nextId s) (case map_of (events s) event of Some cur \<Rightarrow> cur | None \<Rightarrow> [])"
    using invariant_lookup [OF assms(1)] by (auto split: option.splits)
  then show ?thesis using assms by (intro invariant_set_event wellOrdered_filter)
qed

lemma invariant_off:
  assumes "invariant s"
  shows "invariant (off ev f s)"
proof (cases ev)
  case None
  then show ?thesis using assms by (simp add: off_def invariant_reset)
next
  case (Some e)
  show ?thesis
  proof (cases "e = ''*'' \<and> wildcardEnabled s")
    case True
    then show ?thesis using assms Some
      by (auto simp add: off_def invariant_filter_wildcard invariant_set_wildcard split: option.splits)
  next
    case False
    show ?thesis
    proof (cases f)
      case None
      then show ?thesis using assms Some False by (auto simp add: off_def invariant_delete_event)
    next
      case (Some g)
      show ?thesis
      proof (cases "map_of (events s) e")
        case None
        then show ?thesis using assms \<open>ev = Some e\<close> Some False by (auto simp add: off_def)
      next
        case (Some ls)
        then have "e \<noteq> ''*''" using invariant_lookup [OF assms] by blast
        from invariant_filter_event [OF assms this, of "\<lambda>l. handler l \<noteq> g"] Some
        show ?thesis using \<open>ev = Some e\<close> \<open>f = Some g\<close> False by (auto simp add: off_def)
      qed
    qed
  qed
qed

subsection \<open>Properties of the state that a dispatch keeps\<close>

text \<open>
  A property that the journal does not touch is kept by a fan-out when the pruning, the
  suspension, the calls that the handlers make and the inner dispatch keep it.
\<close>

lemma log_keeps:
  assumes "\<forall>t j. I (t\<lparr>journal := j\<rparr>) = I t" and "I s"
  shows "I (log msg lvl s)"
  using assms by (simp add: log_def)

lemma handleError_keeps:
  assumes inner: "\<forall>a t. I t \<longrightarrow> I (snd (inner ''error'' a t))"
    and jr: "\<forall>t j. I (t\<lparr>journal := j\<rparr>) = I t"
    and "I s"
  shows "I (snd (handleError inner err event h s))"
  using assms(3) inner log_keeps [OF jr]
  by (simp add: handleError_def)

lemma performAll_keeps:
  assumes perf: "\<forall>c t. allowed c \<longrightarrow> I t \<longrightarrow> I (snd (perform inner c t))"
  shows "list_all allowed cs \<Longrightarrow> I s \<Longrightarrow> I (snd (performAll inner cs s))"
proof (induction cs arbitrary: s)
  case Nil
  then show ?case by simp
next
  case (Cons c cs)
  obtain r s1 where p: "perform inner c s = (r, s1)" by (cases "perform inner c s")
  from Cons.prems have "allowed c" "list_all allowed cs" by simp_all
  with perf Cons.prems(2) p have i1: "I s1" by (metis snd_conv)
  show ?case
  proof (cases r)
    case None
    with p Cons.IH [OF \<open>list_all allowed cs\<close> i1] show ?thesis by simp
  next
    case (Some e)
    with p i1 show ?thesis by simp
  qed
qed

lemma invoke_keeps:
  assumes calls: "\<forall>h t recv a. list_all allowed (fst (B h t recv a))"
    and perf: "\<forall>c t. allowed c \<longrightarrow> I t \<longrightarrow> I (snd (perform inner c t))"
    and jr: "\<forall>t j. I (t\<lparr>journal := j\<rparr>) = I t"
    and "I s"
  shows "I (snd (invoke B inner i k l args s))"
proof -
  obtain cs result where b: "B (handler l) s (receiverOf l) args = (cs, result)"
    by (cases "B (handler l) s (receiverOf l) args")
  let ?s0 = "s\<lparr>journal := journal s @ [Invoke i k l (receiverOf l) args]\<rparr>"
  obtain r s1 where p: "performAll inner cs ?s0 = (r, s1)"
    by (cases "performAll inner cs ?s0")
  have "list_all allowed cs" using calls b by (metis fst_conv)
  moreover have "I ?s0" using jr assms(4) by simp
  ultimately have "I s1" using performAll_keeps [where I = I and inner = inner, OF perf] p by (metis snd_conv)
  then show ?thesis using b p jr by (cases r) (simp_all add: invoke_def)
qed

lemma fanoutLoop_keeps:
  assumes calls: "\<forall>h t recv a. list_all allowed (fst (B h t recv a))"
    and perf: "\<forall>c t. allowed c \<longrightarrow> I t \<longrightarrow> I (snd (perform inner c t))"
    and inner: "\<forall>a t. I t \<longrightarrow> I (snd (inner ''error'' a t))"
    and jr: "\<forall>t j. I (t\<lparr>journal := j\<rparr>) = I t"
    and pr: "\<forall>l t. I t \<longrightarrow> I (prune k event l t)"
    and ta: "\<forall>t v a l rest. I t \<longrightarrow>
               I (t\<lparr>suspended := suspended t @ [Task v i k event a l rest]\<rparr>)"
  shows "I s \<Longrightarrow> I (fanoutLoop B inner i k event args ls s)"
proof (induction ls arbitrary: s)
  case Nil
  then show ?case using jr by (simp add: finished_def)
next
  case (Cons l ls)
  obtain res s1 where inv: "invoke B inner i k l (handlerArgs k event args) s = (res, s1)"
    by (cases "invoke B inner i k l (handlerArgs k event args) s")
  have i1: "I s1"
    using invoke_keeps [where I = I and inner = inner, OF calls perf jr Cons.prems] inv
    by (metis snd_conv)
  show ?case
  proof (cases res)
    case (Returns v)
    show ?thesis
    proof (cases "asyncEnabled s1 \<and> isPromise v")
      case True
      with inv Returns i1 ta show ?thesis by simp
    next
      case False
      have "I (if isOnce l then prune k event l s1 else s1)" using i1 pr by simp
      from Cons.IH [OF this] inv Returns False show ?thesis by auto
    qed
  next
    case (Throws err)
    obtain r s2 where he: "handleError inner err event (handler l) s1 = (r, s2)"
      by (cases "handleError inner err event (handler l) s1")
    have i2: "I s2" using handleError_keeps [where I = I and inner = inner, OF inner jr i1] he by (metis snd_conv)
    show ?thesis
    proof (cases r)
      case None
      with Cons.IH [OF i2] inv Throws he show ?thesis by simp
    next
      case (Some e)
      with i2 inv Throws he jr show ?thesis by (simp add: finished_def)
    qed
  qed
qed

lemma fanoutContinue_keeps:
  assumes calls: "\<forall>h t recv a. list_all allowed (fst (B h t recv a))"
    and perf: "\<forall>c t. allowed c \<longrightarrow> I t \<longrightarrow> I (snd (perform inner c t))"
    and inner: "\<forall>a t. I t \<longrightarrow> I (snd (inner ''error'' a t))"
    and jr: "\<forall>t j. I (t\<lparr>journal := j\<rparr>) = I t"
    and pr: "\<forall>l t. I t \<longrightarrow> I (prune k event l t)"
    and ta: "\<forall>t v a l rest. I t \<longrightarrow>
               I (t\<lparr>suspended := suspended t @ [Task v i k event a l rest]\<rparr>)"
    and "I s"
  shows "I (fanoutContinue B inner i k event args l rest settled s)"
proof (cases settled)
  case None
  have "I (if isOnce l then prune k event l s else s)" using assms(7) pr by simp
  from fanoutLoop_keeps [where I = I and inner = inner, OF calls perf inner jr pr ta this] None show ?thesis
    by (simp add: fanoutContinue_def)
next
  case (Some err)
  obtain r s2 where he: "handleError inner err event (handler l) s = (r, s2)"
    by (cases "handleError inner err event (handler l) s")
  have i2: "I s2"
    using handleError_keeps [where I = I and inner = inner, OF inner jr assms(7)] he by (metis snd_conv)
  show ?thesis
  proof (cases r)
    case None
    with fanoutLoop_keeps [where I = I and inner = inner, OF calls perf inner jr pr ta i2] Some he show ?thesis
      by (simp add: fanoutContinue_def)
  next
    case (Some e)
    with i2 \<open>settled = Some err\<close> he jr show ?thesis
      by (simp add: fanoutContinue_def finished_def)
  qed
qed

subsection \<open>The loops of the source are instances of the common loop\<close>

lemma wildcardLoop_fanoutLoop:
  "wildcardLoop B inner i event args ls s = fanoutLoop B inner i Wildcard event args ls s"
  by (induction ls arbitrary: s) (auto split: prod.splits outcome.splits option.splits)

lemma specificLoop_fanoutLoop:
  "specificLoop B inner i event args ls s = fanoutLoop B inner i Specific event args ls s"
  by (induction ls arbitrary: s) (auto split: prod.splits outcome.splits option.splits)

lemma wildcardContinue_fanoutContinue:
  "wildcardContinue B inner i event args l rest settled s =
     fanoutContinue B inner i Wildcard event args l rest settled s"
  by (auto simp: wildcardContinue_def fanoutContinue_def wildcardLoop_fanoutLoop
           split: option.splits prod.splits)

lemma specificContinue_fanoutContinue:
  "specificContinue B inner i event args l rest settled s =
     fanoutContinue B inner i Specific event args l rest settled s"
  by (auto simp: specificContinue_def fanoutContinue_def specificLoop_fanoutLoop
           split: option.splits prod.splits)

text \<open>The two fan-outs of \<^verbatim>\<open>emit\<close> and the resumption, in terms of the common loop.\<close>

lemma emitBody_phases:
  "emitBody B inner event args s =
     processSpecificListeners B inner (nextEmit s) event args (wildcardPhase B inner event args s)"
  by (simp add: emitBody_def wildcardPhase_def Let_def)

lemma wildcardPhase_fanoutLoop:
  "wildcardPhase B inner event args s =
     (if wildcardEnabled s \<and> wildcardListeners s \<noteq> []
      then fanoutLoop B inner (nextEmit s) Wildcard event args (wildcardListeners s)
             (s\<lparr>nextEmit := Suc (nextEmit s),
                journal := journal s @ [Dispatch (nextEmit s) event args,
                                        Copied (nextEmit s) Wildcard (wildcardListeners s)]\<rparr>)
      else s\<lparr>nextEmit := Suc (nextEmit s),
              journal := journal s @ [Dispatch (nextEmit s) event args,
                                      Finished (nextEmit s) Wildcard None]\<rparr>)"
  by (simp add: wildcardPhase_def Let_def processWildcardListeners_def finished_def
        wildcardLoop_fanoutLoop)

lemma processSpecificListeners_fanoutLoop:
  "processSpecificListeners B inner i event args s =
     (case map_of (events s) event of
        None \<Rightarrow> s\<lparr>journal := journal s @ [Finished i Specific None]\<rparr>
      | Some ls \<Rightarrow>
          fanoutLoop B inner i Specific event args ls
            (s\<lparr>journal := journal s @ [Copied i Specific ls]\<rparr>))"
  by (simp add: processSpecificListeners_def finished_def specificLoop_fanoutLoop
           split: option.splits)

lemma resume_fanoutContinue:
  "resume B n j settled s =
     (if length (suspended s) \<le> j then s
      else
        (case suspended s ! j of
           Task awaited i k event args l rest \<Rightarrow>
             fanoutContinue B (emit B n) i k event args l rest settled
               (s\<lparr>suspended := take j (suspended s) @ drop (Suc j) (suspended s),
                  journal := journal s @ [Awaited i k l settled]\<rparr>)))"
  by (simp add: resume_def Let_def wildcardContinue_fanoutContinue
        specificContinue_fanoutContinue split: task.splits fanout.splits)

subsection \<open>Properties that \<^verbatim>\<open>emit\<close> keeps\<close>


lemma emitBody_keeps:
  assumes calls: "\<forall>h t recv a. list_all allowed (fst (B h t recv a))"
    and perf: "\<forall>c t. allowed c \<longrightarrow> I t \<longrightarrow> I (snd (perform inner c t))"
    and inner: "\<forall>a t. I t \<longrightarrow> I (snd (inner ''error'' a t))"
    and jr: "\<forall>t j. I (t\<lparr>journal := j\<rparr>) = I t"
    and ne: "\<forall>t m. I (t\<lparr>nextEmit := m\<rparr>) = I t"
    and pw: "\<forall>l t. I t \<longrightarrow> I (pruneWildcard l t)"
    and tw: "\<forall>t v i a l rest. I t \<longrightarrow>
               I (t\<lparr>suspended := suspended t @ [Task v i Wildcard event a l rest]\<rparr>)"
    and ps: "\<forall>l t u. I u \<longrightarrow> map_of (events u) event \<noteq> None \<longrightarrow> I t \<longrightarrow>
               I (pruneSpecific event l t)"
    and ts: "\<forall>u t v i a l rest. I u \<longrightarrow> map_of (events u) event \<noteq> None \<longrightarrow> I t \<longrightarrow>
               I (t\<lparr>suspended := suspended t @ [Task v i Specific event a l rest]\<rparr>)"
    and "I s"
  shows "I (wildcardPhase B inner event args s)"
    and "I (emitBody B inner event args s)"
proof -
  let ?i = "nextEmit s"
  let ?s1 = "wildcardPhase B inner event args s"
  have pw': "\<forall>l t. I t \<longrightarrow> I (prune Wildcard event l t)" using pw by simp
  have tw': "\<forall>t v a l rest. I t \<longrightarrow>
               I (t\<lparr>suspended := suspended t @ [Task v ?i Wildcard event a l rest]\<rparr>)"
    using tw by blast
  show i1: "I ?s1"
  proof (cases "wildcardEnabled s \<and> wildcardListeners s \<noteq> []")
    case True
    let ?s0 = "s\<lparr>nextEmit := Suc (nextEmit s),
                journal := journal s @ [Dispatch (nextEmit s) event args,
                                        Copied (nextEmit s) Wildcard (wildcardListeners s)]\<rparr>"
    have "I ?s0" using assms(10) jr ne by simp
    from fanoutLoop_keeps [where I = I and inner = inner, OF calls perf inner jr pw' tw' this]
      True
    show ?thesis by (simp add: wildcardPhase_fanoutLoop)
  next
    case False
    then show ?thesis using assms(10) jr ne by (auto simp add: wildcardPhase_fanoutLoop)
  qed
  show "I (emitBody B inner event args s)"
  proof (cases "map_of (events ?s1) event")
    case None
    then show ?thesis using i1 jr
      by (simp add: emitBody_phases processSpecificListeners_fanoutLoop)
  next
    case (Some ls)
    have ps': "\<forall>l t. I t \<longrightarrow> I (prune Specific event l t)" using ps i1 Some by auto
    have ts': "\<forall>t v a l rest. I t \<longrightarrow>
               I (t\<lparr>suspended := suspended t @ [Task v ?i Specific event a l rest]\<rparr>)"
      using ts i1 Some by (metis option.distinct(1))
    have "I (?s1\<lparr>journal := journal ?s1 @ [Copied ?i Specific ls]\<rparr>)" using i1 jr by simp
    from fanoutLoop_keeps [where I = I and inner = inner, OF calls perf inner jr ps' ts' this]
      Some
    show ?thesis by (simp add: emitBody_phases processSpecificListeners_fanoutLoop)
  qed
qed

lemma emit_keeps:
  assumes calls: "\<forall>h t recv a. list_all allowed (fst (B h t recv a))"
    and simple: "\<forall>c t inner. allowed c \<longrightarrow> I t \<longrightarrow>
        (\<forall>ev a u. I u \<longrightarrow> I (snd (inner ev a u))) \<longrightarrow> I (snd (perform inner c t))"
    and jr: "\<forall>t j. I (t\<lparr>journal := j\<rparr>) = I t"
    and ne: "\<forall>t m. I (t\<lparr>nextEmit := m\<rparr>) = I t"
    and pw: "\<forall>l t. I t \<longrightarrow> I (pruneWildcard l t)"
    and tw: "\<forall>t v i ev a l rest. I t \<longrightarrow>
               I (t\<lparr>suspended := suspended t @ [Task v i Wildcard ev a l rest]\<rparr>)"
    and ps: "\<forall>ev l t u. I u \<longrightarrow> map_of (events u) ev \<noteq> None \<longrightarrow> I t \<longrightarrow>
               I (pruneSpecific ev l t)"
    and ts: "\<forall>ev u t v i a l rest. I u \<longrightarrow> map_of (events u) ev \<noteq> None \<longrightarrow> I t \<longrightarrow>
               I (t\<lparr>suspended := suspended t @ [Task v i Specific ev a l rest]\<rparr>)"
  shows "I s \<Longrightarrow> I (snd (emit B n event args s))"
proof (induction n arbitrary: event args s)
  case 0
  then show ?case by simp
next
  case (Suc n)
  have inner: "\<forall>ev a t. I t \<longrightarrow> I (snd (emit B n ev a t))" using Suc.IH by blast
  then have inner_error: "\<forall>a t. I t \<longrightarrow> I (snd (emit B n ''error'' a t))" by blast
  have perf: "\<forall>c t. allowed c \<longrightarrow> I t \<longrightarrow> I (snd (perform (emit B n) c t))"
    using simple inner by blast
  have tw': "\<forall>t v i a l rest. I t \<longrightarrow>
               I (t\<lparr>suspended := suspended t @ [Task v i Wildcard event a l rest]\<rparr>)"
    using tw by blast
  have ps': "\<forall>l t u. I u \<longrightarrow> map_of (events u) event \<noteq> None \<longrightarrow> I t \<longrightarrow>
               I (pruneSpecific event l t)"
    using ps by blast
  have ts': "\<forall>u t v i a l rest. I u \<longrightarrow> map_of (events u) event \<noteq> None \<longrightarrow> I t \<longrightarrow>
               I (t\<lparr>suspended := suspended t @ [Task v i Specific event a l rest]\<rparr>)"
    using ts by blast
  from emitBody_keeps(2) [where I = I and inner = "emit B n",
         OF calls perf inner_error jr ne pw tw' ps' ts' Suc.prems]
  show ?case by simp
qed

subsection \<open>The invariant under dispatch\<close>

lemma suspended_simple [simp]:
  "suspended (addListener event h one c p s) = suspended s"
  "suspended (on event h c p s) = suspended s"
  "suspended (once event h c p s) = suspended s"
  "suspended (off ev f s) = suspended s"
  "suspended (reset s) = suspended s"
  "suspended (setMaxListeners m s) = suspended s"
  by (auto simp: addListener_def Let_def on_def once_def off_def reset_def setMaxListeners_def
           split: option.splits)

lemma nextEmit_simple [simp]:
  "nextEmit (addListener event h one c p s) = nextEmit s"
  "nextEmit (on event h c p s) = nextEmit s"
  "nextEmit (once event h c p s) = nextEmit s"
  "nextEmit (off ev f s) = nextEmit s"
  "nextEmit (reset s) = nextEmit s"
  "nextEmit (setMaxListeners m s) = nextEmit s"
  by (auto simp: addListener_def Let_def on_def once_def off_def reset_def setMaxListeners_def
           split: option.splits)

lemma sound_fields [simp]:
  "sound (s\<lparr>journal := j\<rparr>) = sound s"
  "sound (s\<lparr>nextEmit := m\<rparr>) = sound s"
  "sound (s\<lparr>events := ev\<rparr>) = sound s"
  "sound (s\<lparr>wildcardListeners := w\<rparr>) = sound s"
  by (simp_all add: sound_def)

lemma sound_simple [simp]:
  "sound (on event h c p s) = sound s"
  "sound (once event h c p s) = sound s"
  "sound (off ev f s) = sound s"
  "sound (reset s) = sound s"
  "sound (setMaxListeners m s) = sound s"
  by (simp_all add: sound_def)

lemma sound_prune [simp]:
  "sound (pruneWildcard l s) = sound s"
  "sound (pruneSpecific event l s) = sound s"
  by (simp_all add: pruneWildcard_def pruneSpecific_def)

lemma sound_newEventHub: "sound (newEventHub opts)"
  by (simp add: sound_def newEventHub_def)

lemma invariant_pruneWildcard: "invariant s \<Longrightarrow> invariant (pruneWildcard l s)"
  by (simp add: pruneWildcard_def invariant_filter_wildcard)

lemma invariant_pruneSpecific:
  "invariant s \<Longrightarrow> event \<noteq> ''*'' \<Longrightarrow> invariant (pruneSpecific event l s)"
  by (simp add: pruneSpecific_def invariant_filter_event)

lemma perform_invariant:
  assumes "\<forall>ev a u. invariant u \<longrightarrow> invariant (snd (inner ev a u))" and "invariant t"
  shows "invariant (snd (perform inner c t))"
  using assms
  by (cases c)
     (simp_all add: invariant_on invariant_once invariant_off invariant_reset
        invariant_setMaxListeners)

lemma emit_invariant:
  assumes "invariant s"
  shows "invariant (snd (emit B n event args s))"
proof (rule emit_keeps [where I = invariant and allowed = "\<lambda>c. True", OF _ _ _ _ _ _ _ _ assms])
  show "\<forall>h t recv a. list_all (\<lambda>c. True) (fst (B h t recv a))" by (simp add: list_all_iff)
  show "\<forall>c t inner. True \<longrightarrow> invariant t \<longrightarrow>
        (\<forall>ev a u. invariant u \<longrightarrow> invariant (snd (inner ev a u))) \<longrightarrow>
        invariant (snd (perform inner c t))"
    using perform_invariant by blast
  show "\<forall>ev l t u. invariant u \<longrightarrow> map_of (events u) ev \<noteq> None \<longrightarrow> invariant t \<longrightarrow>
               invariant (pruneSpecific ev l t)"
    using invariant_lookup invariant_pruneSpecific by blast
qed (simp_all add: invariant_pruneWildcard)

text \<open>Together with the soundness of the suspended fan-outs it is kept by every step.\<close>

lemma perform_steady:
  assumes "\<forall>ev a u. invariant u \<and> sound u \<longrightarrow>
             invariant (snd (inner ev a u)) \<and> sound (snd (inner ev a u))"
    and "invariant t \<and> sound t"
  shows "invariant (snd (perform inner c t)) \<and> sound (snd (perform inner c t))"
  using assms
  by (cases c)
     (simp_all add: invariant_on invariant_once invariant_off invariant_reset
        invariant_setMaxListeners)

lemma sound_suspend:
  "sound t \<Longrightarrow> k = Wildcard \<or> event \<noteq> ''*'' \<Longrightarrow>
     sound (t\<lparr>suspended := suspended t @ [Task v i k event a l rest]\<rparr>)"
  by (simp add: sound_def)

lemma emit_steady:
  assumes "invariant s \<and> sound s"
  shows "invariant (snd (emit B n event args s)) \<and> sound (snd (emit B n event args s))"
proof (rule emit_keeps [where I = "\<lambda>t. invariant t \<and> sound t" and allowed = "\<lambda>c. True",
         OF _ _ _ _ _ _ _ _ assms])
  show "\<forall>h t recv a. list_all (\<lambda>c. True) (fst (B h t recv a))" by (simp add: list_all_iff)
  show "\<forall>c t inner. True \<longrightarrow> invariant t \<and> sound t \<longrightarrow>
        (\<forall>ev a u. invariant u \<and> sound u \<longrightarrow>
           invariant (snd (inner ev a u)) \<and> sound (snd (inner ev a u))) \<longrightarrow>
        invariant (snd (perform inner c t)) \<and> sound (snd (perform inner c t))"
    using perform_steady by blast
  show "\<forall>ev l t u. invariant u \<and> sound u \<longrightarrow> map_of (events u) ev \<noteq> None \<longrightarrow>
          invariant t \<and> sound t \<longrightarrow>
          invariant (pruneSpecific ev l t) \<and> sound (pruneSpecific ev l t)"
    using invariant_lookup invariant_pruneSpecific by (metis option.exhaust sound_prune(2))
  show "\<forall>ev u t v i a l rest. invariant u \<and> sound u \<longrightarrow> map_of (events u) ev \<noteq> None \<longrightarrow>
          invariant t \<and> sound t \<longrightarrow>
          invariant (t\<lparr>suspended := suspended t @ [Task v i Specific ev a l rest]\<rparr>) \<and>
          sound (t\<lparr>suspended := suspended t @ [Task v i Specific ev a l rest]\<rparr>)"
  proof (intro allI impI)
    fix ev u t v i a l rest
    assume u: "invariant u \<and> sound u" and k: "map_of (events u) ev \<noteq> None"
      and t: "invariant t \<and> sound t"
    from u k have "ev \<noteq> ''*''" using invariant_lookup by blast
    with t show "invariant (t\<lparr>suspended := suspended t @ [Task v i Specific ev a l rest]\<rparr>) \<and>
          sound (t\<lparr>suspended := suspended t @ [Task v i Specific ev a l rest]\<rparr>)"
      by (simp add: sound_suspend)
  qed
qed (simp_all add: invariant_pruneWildcard sound_suspend)

lemma resume_steady:
  assumes "invariant s \<and> sound s"
  shows "invariant (resume B n j settled s) \<and> sound (resume B n j settled s)"
proof (cases "length (suspended s) \<le> j")
  case True
  with assms show ?thesis by (simp add: resume_fanoutContinue)
next
  case False
  obtain v i k event args l rest where t: "suspended s ! j = Task v i k event args l rest"
    by (cases "suspended s ! j")
  from False have "suspended s ! j \<in> set (suspended s)" by simp
  with assms t have nm: "k = Wildcard \<or> event \<noteq> ''*''"
    by (auto simp: sound_def list_all_iff)
  let ?I = "\<lambda>t. invariant t \<and> sound t"
  let ?s0 = "s\<lparr>suspended := take j (suspended s) @ drop (Suc j) (suspended s),
               journal := journal s @ [Awaited i k l settled]\<rparr>"
  have "set (take j (suspended s) @ drop (Suc j) (suspended s)) \<subseteq> set (suspended s)"
    by (auto dest: in_set_takeD in_set_dropD)
  with assms have i0: "?I ?s0" by (auto simp: sound_def list_all_iff)
  have calls: "\<forall>h t recv a. list_all (\<lambda>c. True) (fst (B h t recv a))"
    by (simp add: list_all_iff)
  have inner: "\<forall>ev a t. ?I t \<longrightarrow> ?I (snd (emit B n ev a t))" using emit_steady by blast
  then have perf: "\<forall>c t. True \<longrightarrow> ?I t \<longrightarrow> ?I (snd (perform (emit B n) c t))"
    using perform_steady by blast
  have inner_error: "\<forall>a t. ?I t \<longrightarrow> ?I (snd (emit B n ''error'' a t))" using inner by blast
  have jr: "\<forall>t j. ?I (t\<lparr>journal := j\<rparr>) = ?I t" by simp
  have pr: "\<forall>l t. ?I t \<longrightarrow> ?I (prune k event l t)"
    using nm by (cases k) (auto simp: invariant_pruneWildcard invariant_pruneSpecific)
  have ta: "\<forall>t v a l rest. ?I t \<longrightarrow>
               ?I (t\<lparr>suspended := suspended t @ [Task v i k event a l rest]\<rparr>)"
    using nm by (simp add: sound_suspend)
  from fanoutContinue_keeps [where I = ?I and inner = "emit B n",
         OF calls perf inner_error jr pr ta i0]
  show ?thesis using False t by (simp add: resume_fanoutContinue)
qed

lemma reachable_steady: "reachable B s \<Longrightarrow> invariant s \<and> sound s"
proof (induction rule: reachable.induct)
  case (constructed opts)
  then show ?case by (simp add: invariant_newEventHub sound_newEventHub)
next
  case (after_emit s n event args)
  then show ?case using emit_steady by blast
next
  case (after_resume s n j settled)
  then show ?case using resume_steady by blast
qed (simp_all add: invariant_on invariant_once invariant_off invariant_reset
       invariant_setMaxListeners)

lemma reachable_invariant_aux: "reachable B s \<Longrightarrow> invariant s"
  using reachable_steady by blast

subsection \<open>What a dispatch writes\<close>







lemma console_entry [simp]:
  "since m (Console lvl ns msg)" "below n (Console lvl ns msg)"
  "mine i k a m (Console lvl ns msg)"
  by (simp_all add: since_def below_def mine_def)


lemma journal_prune [simp]:
  "journal (pruneWildcard l s) = journal s"
  "journal (pruneSpecific event l s) = journal s"
  "journal (prune k event l s) = journal s"
  "suspended (pruneWildcard l s) = suspended s"
  "suspended (pruneSpecific event l s) = suspended s"
  "suspended (prune k event l s) = suspended s"
  "nextEmit (pruneWildcard l s) = nextEmit s"
  "nextEmit (pruneSpecific event l s) = nextEmit s"
  "nextEmit (prune k event l s) = nextEmit s"
  "asyncEnabled (pruneWildcard l s) = asyncEnabled s"
  "asyncEnabled (pruneSpecific event l s) = asyncEnabled s"
  "asyncEnabled (prune k event l s) = asyncEnabled s"
  by (cases k; simp add: pruneWildcard_def pruneSpecific_def)+



lemma journal_simple [simp]:
  "journal (off ev f s) = journal s"
  "journal (reset s) = journal s"
  "journal (setMaxListeners m s) = journal s"
  by (auto simp: off_def reset_def setMaxListeners_def split: option.splits)




text \<open>
  A handler call of fan-out \<open>k\<close> of call \<open>i\<close> writes the entry of the call, whatever the calls
  made by the handler write, and the entry of the outcome.
\<close>

lemma own_mine [simp]:
  "mine i k a m (Invoke i k l (receiverOf l) a)"
  "mine i k a m (Outcome i k l r)"
  "mine i k a m (Finished i k x)"
  by (simp_all add: mine_def)

lemma below_own [simp]:
  "below n (Invoke i k l recv a) = (i < n)"
  "below n (Outcome i k l r) = (i < n)"
  "below n (Finished i k x) = (i < n)"
  "below n (Awaited i k l y) = (i < n)"
  "below n (Copied i k ls) = (i < n)"
  "below n (Dispatch i ev a) = (i < n)"
  by (simp_all add: below_def)

lemma since_own [simp]:
  "since m (Invoke i k l recv a) = (m \<le> i)"
  "since m (Outcome i k l r) = (m \<le> i)"
  "since m (Finished i k x) = (m \<le> i)"
  "since m (Awaited i k l y) = (m \<le> i)"
  "since m (Copied i k ls) = (m \<le> i)"
  "since m (Dispatch i ev a) = (m \<le> i)"
  by (simp_all add: since_def)
















subsection \<open>Tidy states\<close>









lemma reachable_step: "reachable B s \<Longrightarrow> reachable B (step B a s)"
proof -
  assume r: "reachable B s"
  obtain n act where a: "a = (n, act)" by (cases a)
  show ?thesis
  proof (cases act)
    case (Calls c)
    with a r show ?thesis by (cases c) (auto intro: reachable.intros)
  next
    case (Settles j settled)
    with a r show ?thesis by (auto intro: reachable.intros)
  qed
qed

lemma reachable_run: "reachable B s \<Longrightarrow> reachable B (run B acts s)"
  by (induction acts arbitrary: s) (simp_all add: reachable_step)

subsection \<open>What a dispatch leaves untouched\<close>






lemma since_invocations:
  assumes "extends (since m) (later m) s s'" and "i < m"
  shows "invocations i (journal s') = invocations i (journal s)"
    and "failures i (journal s') = failures i (journal s)"
proof -
  from assms(1) obtain es where 1:
    "journal s' = journal s @ es" "list_all (\<lambda>e. since m e \<and> below (nextEmit s') e) es"
    by (auto simp: extends_def)
  have "list_all (since m) es" using 1(2) by (simp add: list_all_iff)
  from since_all_reads [OF this assms(2)] 1(1)
  show "invocations i (journal s') = invocations i (journal s)"
    and "failures i (journal s') = failures i (journal s)" by simp_all
qed





subsection \<open>How far a fan-out comes\<close>









subsection \<open>The fan-outs of one call, from its start on\<close>








subsection \<open>The fan-outs of one call while other things happen\<close>












subsection \<open>Arguments and receiver of the handler calls of one \<^verbatim>\<open>emit\<close>\<close>
















subsection \<open>The array that the specific fan-out copies\<close>









subsection \<open>Keys that stay\<close>







subsection \<open>Registration and the queries\<close>

lemma listenerCount_listenersOf: "listenerCount event s = length (listenersOf event s)"
  by (simp add: listenerCount_def listenersOf_def split: option.splits)


lemma addListener_listenersOf:
  assumes "\<not> (event = ''*'' \<and> \<not> wildcardEnabled s)"
  shows "listenersOf event (addListener event h one c p s) =
           insertListenerByPriority (listenersOf event s)
             \<lparr>handler = h, isOnce = one, priority = p, boundContext = c, ident = nextId s\<rparr>"
proof (cases "event = ''*''")
  case True
  with assms have "wildcardEnabled s" by simp
  with True show ?thesis
    by (simp add: addListener_def Let_def listenersOf_def)
next
  case False
  show ?thesis
  proof (cases "map_of (events s) event")
    case None
    with False show ?thesis
      by (simp add: addListener_def Let_def listenersOf_def AList.update_conv')
  next
    case (Some ls)
    with False show ?thesis
      by (simp add: addListener_def Let_def listenersOf_def AList.update_conv')
  qed
qed


subsection \<open>Runs on the concrete dispatchers\<close>

lemmas hub_defs =
  onceHub_def taskHub_def guardedHub_def pairHub_def plainHub_def debugHub_def staleHub_def strictHub_def
  fullHub_def mixedHub_def wildcardOnlyHub_def prunedHub_def thrownHub_def awaitingHub_def

lemmas handler_defs = calm_def faulty_def symbolic_def slow_def

lemma emit_2 [simp]: "emit B 2 = emit B (Suc (Suc 0))"
  by (simp add: numeral_2_eq_2)

lemma onceHub_returns: "emit calm 1 ''x'' [] onceHub = (None, prunedHub)"
  by (simp add: run_defs hub_defs calm_def)

lemma onceHub_throws: "emit faulty 1 ''x'' [] onceHub = (None, thrownHub)"
  by (simp add: run_defs hub_defs faulty_def)

lemma onceHub_awaits: "emit slow 1 ''x'' [] onceHub = (None, awaitingHub)"
  by (simp add: run_defs hub_defs slow_def)



section \<open>The claims\<close>

subsection \<open>C1: a one-shot listener whose handler throws\<close>

text \<open>
  Claim C1 says that a one-shot listener that an \<^verbatim>\<open>emit\<close> invoked is gone from its sequence
  when the \<^verbatim>\<open>emit\<close> has completed, also when its handler throws or its awaitable rejects.
  The source filters the record out inside the \<^verbatim>\<open>try\<close> block, after the call and the
  \<^verbatim>\<open>await\<close>: a throw or a rejection skips the removal. On \<open>onceHub\<close> with the throwing closure
  1, the promise of \<^verbatim>\<open>emit('x')\<close> resolves to \<^verbatim>\<open>true\<close>, the handler was invoked and threw, and
  \<^verbatim>\<open>listenerCount('x')\<close> is still 1; a second \<^verbatim>\<open>emit('x')\<close> invokes the one-shot listener
  again. With a returning handler the same record is removed. The wildcard array behaves
  the same way. When closure 1 returns a promise, the fan-out is suspended; when that
  promise is rejected the record stays as well (and \<^verbatim>\<open>emit\<close> resolves to \<^verbatim>\<open>true\<close>), when it is
  fulfilled the record is removed.
\<close>

theorem once_listener_survives_throw:
  "emit faulty 1 ''x'' [] onceHub = (None, thrownHub)
   \<and> emitResult 0 thrownHub = Resolved (Bool True)
   \<and> listenerCount ''x'' onceHub = 1
   \<and> listenerCount ''x'' thrownHub = 1
   \<and> calls 0 Specific (journal thrownHub) = listenersOf ''x'' onceHub
   \<and> outcomes 0 (journal thrownHub) = [(1, Throws (Str ''boom''))]
   \<and> calls 1 Specific (journal (snd (emit faulty 1 ''x'' [] thrownHub)))
       = listenersOf ''x'' onceHub
   \<and> emit calm 1 ''x'' [] onceHub = (None, prunedHub)
   \<and> listenerCount ''x'' prunedHub = 0
   \<and> listenerCount ''*''
        (snd (emit faulty 1 ''y'' [] (once ''*'' 1 Undefined 0 (newEventHub noOptions))))
       = 1
   \<and> listenerCount ''*''
        (snd (emit calm 1 ''y'' [] (once ''*'' 1 Undefined 0 (newEventHub noOptions))))
       = 0
   \<and> emit slow 1 ''x'' [] onceHub = (None, awaitingHub)
   \<and> emitResult 0 awaitingHub = Pending
   \<and> listenerCount ''x'' (resume slow 1 0 (Some (Str ''late'')) awaitingHub) = 1
   \<and> emitResult 0 (resume slow 1 0 (Some (Str ''late'')) awaitingHub)
       = Resolved (Bool True)
   \<and> listenerCount ''x'' (resume slow 1 0 None awaitingHub) = 0"
  by (simp add: run_defs hub_defs read_defs handler_defs)

subsection \<open>C2: invocation in priority order\<close>



subsection \<open>C3: every sequence stays ordered\<close>

text \<open>
  Claim C3: in every reachable state each listener sequence (the array of every named
  event and the wildcard array) is sorted by non-increasing priority, records of equal
  priority standing in the order of their registration; \<^verbatim>\<open>on\<close>, \<^verbatim>\<open>once\<close>, \<^verbatim>\<open>off\<close>, \<^verbatim>\<open>emit\<close>
  with its pruning of one-shot records, and \<^verbatim>\<open>reset\<close> keep it so. \<open>invariant\<close> says this
  with \<open>before\<close>; the last part of the theorem spells it out. \<open>reachable\<close> closes the
  constructed states under the public methods and under the resumption of suspended
  fan-outs, and each method keeps the invariant from any state that has it, an \<^verbatim>\<open>emit\<close>
  whose handlers call the dispatcher included. A fan-out that goes on after an \<^verbatim>\<open>await\<close>
  keeps it as well, from the states where the suspended specific fan-outs belong to named
  events (\<open>sound\<close>), which every reachable state is.
\<close>

theorem sequences_stay_ordered:
  "(reachable B s \<longrightarrow> invariant s \<and> sound s) \<and>
   invariant (newEventHub opts) \<and>
   (invariant s \<longrightarrow>
      invariant (on event h c p s) \<and> invariant (once event h c p s) \<and>
      invariant (off ev f s) \<and> invariant (reset s) \<and>
      (emit B n event args s = (r, s') \<longrightarrow> invariant s')) \<and>
   (invariant s \<and> sound s \<longrightarrow>
      invariant (resume B n j settled s) \<and> sound (resume B n j settled s)) \<and>
   (invariant s \<longrightarrow>
      list_all (\<lambda>ls. sorted_wrt (\<lambda>a b. priority b \<le> priority a) ls \<and>
                     sorted_wrt (\<lambda>a b. priority a = priority b \<longrightarrow> ident a < ident b) ls)
        (wildcardListeners s # map snd (events s)))"
proof -
  have 1: "reachable B s \<longrightarrow> invariant s \<and> sound s" using reachable_steady by blast
  have e: "emit B n event args s = (r, s') \<longrightarrow> invariant s \<longrightarrow> invariant s'"
    using emit_invariant [of s B n event args] by auto
  have 2: "invariant s \<longrightarrow>
      invariant (on event h c p s) \<and> invariant (once event h c p s) \<and>
      invariant (off ev f s) \<and> invariant (reset s) \<and>
      (emit B n event args s = (r, s') \<longrightarrow> invariant s')"
    using e by (auto simp: invariant_on invariant_once invariant_off invariant_reset)
  have 3: "invariant s \<and> sound s \<longrightarrow>
      invariant (resume B n j settled s) \<and> sound (resume B n j settled s)"
    using resume_steady by blast
  have 4: "invariant s \<longrightarrow>
      list_all (\<lambda>ls. sorted_wrt (\<lambda>a b. priority b \<le> priority a) ls \<and>
                     sorted_wrt (\<lambda>a b. priority a = priority b \<longrightarrow> ident a < ident b) ls)
        (wildcardListeners s # map snd (events s))"
  proof
    assume i: "invariant s"
    have "sorted_wrt (\<lambda>a b. priority b \<le> priority a) ls \<and>
          sorted_wrt (\<lambda>a b. priority a = priority b \<longrightarrow> ident a < ident b) ls"
      if "sorted_wrt before ls" for ls
      using that by (auto simp: before_def elim!: sorted_wrt_mono_rel [rotated])
    then show "list_all (\<lambda>ls. sorted_wrt (\<lambda>a b. priority b \<le> priority a) ls \<and>
                     sorted_wrt (\<lambda>a b. priority a = priority b \<longrightarrow> ident a < ident b) ls)
        (wildcardListeners s # map snd (events s))"
      using i by (auto simp: invariant_def wellOrdered_def list_all_iff)
  qed
  from 1 2 3 4 invariant_newEventHub show ?thesis by blast
qed

text \<open>
  \<open>mixedHub\<close> is reachable and ordered, and stays ordered under a registration, a removal
  and an \<^verbatim>\<open>emit\<close>; so does \<open>onceHub\<close> under the \<^verbatim>\<open>emit\<close> that prunes its one-shot record, and
  under the \<^verbatim>\<open>emit\<close> that is suspended and goes on to prune the record later.
\<close>

theorem sequences_stay_ordered_witness:
  "reachable calm mixedHub \<and> invariant mixedHub \<and> sound mixedHub \<and>
   invariant (on ''a'' 9 Undefined 3 mixedHub) \<and>
   invariant (off (Some ''a'') (Some 2) mixedHub) \<and>
   invariant (snd (emit calm 1 ''a'' [Num 7] mixedHub)) \<and>
   map (map priority) (wildcardListeners mixedHub # map snd (events mixedHub))
     = [[0], [5, 0, 0], [0]] \<and>
   reachable slow onceHub \<and>
   emit calm 1 ''x'' [] onceHub = (None, prunedHub) \<and>
   invariant prunedHub \<and>
   reachable slow awaitingHub \<and> invariant awaitingHub \<and> sound awaitingHub \<and>
   invariant (resume slow 1 0 None awaitingHub) \<and>
   events (resume slow 1 0 None awaitingHub) = [(''x'', [])]"
proof -
  have r1: "reachable calm mixedHub"
    unfolding mixedHub_def by (intro reachable.intros)
  have r2: "reachable slow onceHub"
    unfolding onceHub_def by (intro reachable.intros)
  have r3: "reachable slow awaitingHub"
    using reachable.after_emit [OF r2, of 1 "''x''" "[]"] onceHub_awaits by simp
  have c: "map (map priority) (wildcardListeners mixedHub # map snd (events mixedHub))
     = [[0], [5, 0, 0], [0]]"
    "events (resume slow 1 0 None awaitingHub) = [(''x'', [])]"
    by (simp_all add: run_defs hub_defs handler_defs)
  obtain r' t' where e: "emit calm 1 ''a'' [Num 7] mixedHub = (r', t')"
    by (cases "emit calm 1 ''a'' [Num 7] mixedHub")
  note m = sequences_stay_ordered
         [of calm mixedHub noOptions "''a''" 9 Undefined 3 "Some ''a''" "Some 2"
             1 "[Num 7]" r' t' 0 None]
  note p = sequences_stay_ordered
         [of calm onceHub noOptions "''x''" 1 Undefined 0 None None 1 "[]" None prunedHub 0 None]
  note w = sequences_stay_ordered
         [of slow awaitingHub noOptions "''x''" 1 Undefined 0 None None 1 "[]" None prunedHub
             0 None]
  have m1: "invariant mixedHub \<and> sound mixedHub" using m r1 by blast
  have m2: "invariant (on ''a'' 9 Undefined 3 mixedHub)"
    "invariant (off (Some ''a'') (Some 2) mixedHub)" "invariant t'"
    using m m1 e by blast+
  have r2': "reachable calm onceHub"
    unfolding onceHub_def by (intro reachable.intros)
  have p1: "invariant prunedHub" using p r2' onceHub_returns by blast
  have w1: "invariant awaitingHub \<and> sound awaitingHub" using w r3 by blast
  have w2: "invariant (resume slow 1 0 None awaitingHub)" using w w1 by blast
  from m1 m2 p1 w1 w2 r1 r2 r3 c e onceHub_returns show ?thesis by simp
qed

subsection \<open>C4: a failing handler and the rest of the fan-out\<close>

text \<open>
  Claim C4 says that after a handler has thrown, or its awaitable was rejected, every
  remaining listener of the snapshot is still invoked and \<^verbatim>\<open>emit\<close> still resolves to \<^verbatim>\<open>true\<close>.
  The source catches the failure of each listener and hands it to \<^verbatim>\<open>handleError\<close>, but
  without a key \<^verbatim>\<open>'error'\<close> that method builds its message with \<^verbatim>\<open>${error}\<close> before \<^verbatim>\<open>log\<close> looks
  at the debug flag, and it does so inside the \<^verbatim>\<open>catch\<close> block: for a thrown value that has
  no conversion to a string the message itself throws, the exception leaves the fan-out,
  and the promise of \<^verbatim>\<open>emit\<close> is rejected. On \<open>pairHub\<close> (closure 1, then closure 2, on \<^verbatim>\<open>'x'\<close>;
  no error listener) with closure 1 throwing a symbol, closure 2 is never invoked and
  \<^verbatim>\<open>emit('x')\<close> is rejected with a \<^verbatim>\<open>TypeError\<close>. When closure 1 throws a string instead, or when
  an error listener is registered (\<open>guardedHub\<close>), closure 2 is invoked and \<^verbatim>\<open>emit\<close> resolves to
  \<^verbatim>\<open>true\<close>, as the claim says. A rejected awaitable behaves in the same way: rejected with a
  symbol, the fan-out ends there; rejected with a string, it goes on. With
  \<^verbatim>\<open>enableAsync: false\<close> (\<open>plainHub\<close>) the thrown symbol has the same effect.
\<close>

theorem unprintable_error_stops_dispatch:
  "map handler (listenersOf ''x'' pairHub) = [1, 2]
   \<and> \<not> hasEvent ''error'' pairHub
   \<and> map handler (snapshotOf 0 Specific (journal (snd (emit symbolic 2 ''x'' [] pairHub))))
       = [1, 2]
   \<and> map handler (calls 0 Specific (journal (snd (emit symbolic 2 ''x'' [] pairHub)))) = [1]
   \<and> outcomes 0 (journal (snd (emit symbolic 2 ''x'' [] pairHub))) = [(1, Throws (Sym 0))]
   \<and> finishes 0 Specific (journal (snd (emit symbolic 2 ''x'' [] pairHub)))
       = [Some TypeError]
   \<and> emitResult 0 (snd (emit symbolic 2 ''x'' [] pairHub)) = Rejected TypeError
   \<and> suspended (snd (emit symbolic 2 ''x'' [] pairHub)) = []
   \<and> map handler (calls 0 Specific (journal (snd (emit faulty 2 ''x'' [] pairHub))))
       = [1, 2]
   \<and> emitResult 0 (snd (emit faulty 2 ''x'' [] pairHub)) = Resolved (Bool True)
   \<and> map handler (calls 0 Specific (journal (snd (emit symbolic 2 ''x'' [] guardedHub))))
       = [1, 2]
   \<and> emitResult 0 (snd (emit symbolic 2 ''x'' [] guardedHub))
       = Resolved (Bool True)
   \<and> map handler (calls 0 Specific (journal (snd (emit slow 2 ''x'' [] pairHub)))) = [1]
   \<and> emitResult 0 (snd (emit slow 2 ''x'' [] pairHub)) = Pending
   \<and> map handler
        (calls 0 Specific
           (journal (resume slow 2 0 (Some (Sym 0)) (snd (emit slow 2 ''x'' [] pairHub)))))
       = [1]
   \<and> emitResult 0 (resume slow 2 0 (Some (Sym 0)) (snd (emit slow 2 ''x'' [] pairHub)))
       = Rejected TypeError
   \<and> suspended (resume slow 2 0 (Some (Sym 0)) (snd (emit slow 2 ''x'' [] pairHub))) = []
   \<and> map handler
        (calls 0 Specific
           (journal
              (resume slow 2 0 (Some (Str ''late'')) (snd (emit slow 2 ''x'' [] pairHub)))))
       = [1, 2]
   \<and> emitResult 0 (resume slow 2 0 (Some (Str ''late'')) (snd (emit slow 2 ''x'' [] pairHub)))
       = Resolved (Bool True)
   \<and> \<not> asyncEnabled plainHub
   \<and> map handler (calls 0 Specific (journal (snd (emit symbolic 2 ''x'' [] plainHub)))) = [1]
   \<and> emitResult 0 (snd (emit symbolic 2 ''x'' [] plainHub)) = Rejected TypeError
   \<and> map handler (calls 0 Specific (journal (snd (emit faulty 2 ''x'' [] plainHub))))
       = [1, 2]
   \<and> emitResult 0 (snd (emit faulty 2 ''x'' [] plainHub)) = Resolved (Bool True)"
  by (simp add: run_defs hub_defs read_defs handler_defs)

subsection \<open>C5: where a caught error goes\<close>

text \<open>
  Claim C5 says that a caught listener error starts a dispatch of \<^verbatim>\<open>'error'\<close> with the
  arguments (error, event name, failing handler) when a listener is registered for
  \<^verbatim>\<open>'error'\<close>, and that no such dispatch occurs when none is. The comments of \<^verbatim>\<open>handleError\<close>
  say the same (an error listener: trigger it; otherwise: write to the console), but the
  test is \<^verbatim>\<open>this.events.has('error')\<close>, and \<^verbatim>\<open>off('error', h)\<close> leaves the key behind with an
  empty array. On \<open>staleHub\<close> (debug mode; an error listener registered and removed again by
  reference; a wildcard listener; the throwing closure 1 on \<^verbatim>\<open>'x'\<close>) \<^verbatim>\<open>listenerCount('error')\<close>
  is 0, yet \<^verbatim>\<open>emit('x')\<close> starts the dispatch of \<^verbatim>\<open>'error'\<close>, which reaches the wildcard listener
  as an event, and nothing is written to the console although debug mode is on. On
  \<open>debugHub\<close>, the same dispatcher where no error listener ever was registered, there is no
  second dispatch and the error is written to the console. With an error listener in
  place (\<open>guardedHub\<close>) it receives (error, \<^verbatim>\<open>'x'\<close>, closure 1), the remaining listener of \<^verbatim>\<open>'x'\<close>
  is invoked, and \<^verbatim>\<open>emit('x')\<close> resolves to \<^verbatim>\<open>true\<close>.
\<close>

theorem stale_error_key_swallows_error:
  "listenerCount ''error'' staleHub = 0
   \<and> listenersOf ''error'' staleHub = []
   \<and> hasEvent ''error'' staleHub
   \<and> debugMode staleHub
   \<and> dispatches (journal (snd (emit faulty 2 ''x'' [] staleHub)))
       = [(0, ''x'', []), (1, ''error'', [Str ''boom'', Str ''x'', Fun 1])]
   \<and> map (\<lambda>(k, l, recv, a). (k, handler l, a))
        (invocations 1 (journal (snd (emit faulty 2 ''x'' [] staleHub))))
       = [(Wildcard, 2, [Str ''error'', Str ''boom'', Str ''x'', Fun 1])]
   \<and> console (journal (snd (emit faulty 2 ''x'' [] staleHub))) = []
   \<and> emitResult 0 (snd (emit faulty 2 ''x'' [] staleHub)) = Resolved (Bool True)
   \<and> listenerCount ''error'' debugHub = 0
   \<and> \<not> hasEvent ''error'' debugHub
   \<and> debugMode debugHub
   \<and> dispatches (journal (snd (emit faulty 2 ''x'' [] debugHub))) = [(0, ''x'', [])]
   \<and> console (journal (snd (emit faulty 2 ''x'' [] debugHub)))
       = [(LevelError, UnhandledListenerError ''x'' (Str ''boom''))]
   \<and> listenerCount ''error'' guardedHub = 1
   \<and> dispatches (journal (snd (emit faulty 2 ''x'' [] guardedHub)))
       = [(0, ''x'', []), (1, ''error'', [Str ''boom'', Str ''x'', Fun 1])]
   \<and> map (\<lambda>(k, l, recv, a). (k, handler l, a))
        (invocations 1 (journal (snd (emit faulty 2 ''x'' [] guardedHub))))
       = [(Specific, 3, [Str ''boom'', Str ''x'', Fun 1])]
   \<and> map handler (calls 0 Specific (journal (snd (emit faulty 2 ''x'' [] guardedHub))))
       = [1, 2]
   \<and> emitResult 0 (snd (emit faulty 2 ''x'' [] guardedHub))
       = Resolved (Bool True)"
  by (simp add: run_defs hub_defs read_defs handler_defs)

subsection \<open>C6: the key of a named event outlives its listeners\<close>




subsection \<open>C7: the listener limit\<close>

text \<open>
  Claim C7: a registration through \<^verbatim>\<open>on\<close> or \<^verbatim>\<open>once\<close> made when the total number of
  listeners has reached \<^verbatim>\<open>maxListeners\<close> still inserts its record, and \<^verbatim>\<open>listenerCount\<close>
  of the event grows by one: the limit blocks nothing. The registrations in question are
  those that \<^verbatim>\<open>addListener\<close> carries out at all; the wildcard token on a dispatcher without
  wildcard support is dropped before the limit is looked at, whatever the limit (claim
  C8).
\<close>

theorem limit_does_not_block:
  assumes "\<not> (event = ''*'' \<and> \<not> wildcardEnabled s)"
    and "maxListeners s \<le> int (getTotalListenerCount s)"
  shows "listenerCount event (on event h c p s) = Suc (listenerCount event s) \<and>
    \<lparr>handler = h, isOnce = False, priority = p, boundContext = c, ident = nextId s\<rparr>
       \<in> set (listenersOf event (on event h c p s)) \<and>
    listenerCount event (once event h c p s) = Suc (listenerCount event s) \<and>
    \<lparr>handler = h, isOnce = True, priority = p, boundContext = c, ident = nextId s\<rparr>
       \<in> set (listenersOf event (once event h c p s))"
  using assms(1)
  by (simp add: on_def once_def listenerCount_listenersOf addListener_listenersOf)

text \<open>The scenario of the specification: \<^verbatim>\<open>maxListeners: 1\<close>, two listeners on one event.\<close>

theorem limit_does_not_block_witness:
  "maxListeners fullHub \<le> int (getTotalListenerCount fullHub) \<and>
   listenerCount ''a'' fullHub = 1 \<and>
   listenerCount ''a'' (on ''a'' 2 Undefined 0 fullHub) = 2 \<and>
   listenerCount ''a'' (once ''a'' 2 Undefined 0 fullHub) = 2 \<and>
   listenerCount ''*'' (on ''*'' 2 Undefined 0 fullHub) = 1"
proof -
  have a: "\<not> (''a'' = ''*'' \<and> \<not> wildcardEnabled fullHub)" by simp
  have w: "\<not> (''*'' = ''*'' \<and> \<not> wildcardEnabled fullHub)" by (simp add: run_defs hub_defs)
  have m: "maxListeners fullHub \<le> int (getTotalListenerCount fullHub)"
    by (simp add: run_defs hub_defs)
  have c: "listenerCount ''a'' fullHub = 1" "listenerCount ''*'' fullHub = 0"
    by (simp_all add: run_defs hub_defs)
  from limit_does_not_block [OF a m, of 2 Undefined 0]
       limit_does_not_block [OF w m, of 2 Undefined 0] m c
  show ?thesis by simp
qed

subsection \<open>C8: the wildcard token on a dispatcher without wildcard support\<close>

text \<open>
  Claim C8: on a dispatcher constructed with wildcard support disabled (support is fixed at
  construction, so these are the reachable states where it is off), \<^verbatim>\<open>on('*', h)\<close> and
  \<^verbatim>\<open>once('*', h)\<close> return the dispatcher with its whole state unchanged, and
  \<^verbatim>\<open>hasEvent('*')\<close> is false.
\<close>

theorem wildcard_disabled_is_noop:
  assumes "reachable B s" and "\<not> wildcardEnabled s"
  shows "on ''*'' h c p s = s \<and> once ''*'' h c p s = s \<and> \<not> hasEvent ''*'' s"
proof -
  have "invariant s" using assms(1) by (rule reachable_invariant_aux)
  then have "''*'' \<notin> set (map fst (events s))" by (simp add: invariant_def)
  then have "map_of (events s) ''*'' = None" by (simp add: map_of_eq_None_iff)
  with assms(2) show ?thesis
    by (simp add: on_def once_def addListener_def hasEvent_def)
qed

theorem wildcard_disabled_is_noop_witness:
  "reachable calm strictHub \<and> \<not> wildcardEnabled strictHub \<and>
   on ''*'' 2 Undefined 0 strictHub = strictHub \<and>
   once ''*'' 2 Undefined 0 strictHub = strictHub \<and>
   \<not> hasEvent ''*'' strictHub \<and> listenerCount ''a'' strictHub = 1"
proof -
  have r: "reachable calm strictHub"
    unfolding strictHub_def by (intro reachable.intros)
  have w: "\<not> wildcardEnabled strictHub" by (simp add: run_defs hub_defs)
  have c: "listenerCount ''a'' strictHub = 1" by (simp add: run_defs hub_defs)
  from wildcard_disabled_is_noop [OF r w, of 2 Undefined 0] r w c show ?thesis by simp
qed

subsection \<open>C9: removal by handler reference\<close>

text \<open>
  Claim C9: \<^verbatim>\<open>off(e, h)\<close> removes from the sequence of \<open>e\<close> exactly the records whose handler
  is the reference \<open>h\<close>; the other records of \<open>e\<close> stay in their order, and every other
  sequence is unchanged. For the wildcard token on a dispatcher with wildcard support the
  sequence of \<open>e\<close> is the wildcard array and the whole map is unchanged; otherwise it is the
  map entry of \<open>e\<close> (no entry: nothing changes), and the other entries, the order of the
  keys and the wildcard array are unchanged.
\<close>

theorem off_by_reference_frame:
  "(event = ''*'' \<and> wildcardEnabled s \<longrightarrow>
      wildcardListeners (off (Some event) (Some h) s) =
        filter (\<lambda>l. handler l \<noteq> h) (wildcardListeners s) \<and>
      events (off (Some event) (Some h) s) = events s) \<and>
   (\<not> (event = ''*'' \<and> wildcardEnabled s) \<longrightarrow>
      map_of (events (off (Some event) (Some h) s)) event =
        map_option (filter (\<lambda>l. handler l \<noteq> h)) (map_of (events s) event) \<and>
      (\<forall>other. other \<noteq> event \<longrightarrow>
         map_of (events (off (Some event) (Some h) s)) other = map_of (events s) other) \<and>
      map fst (events (off (Some event) (Some h) s)) = map fst (events s) \<and>
      wildcardListeners (off (Some event) (Some h) s) = wildcardListeners s)"
proof (cases "event = ''*'' \<and> wildcardEnabled s")
  case True
  then show ?thesis by (simp add: off_def)
next
  case False
  show ?thesis
  proof (cases "map_of (events s) event")
    case None
    with False show ?thesis by (auto simp: off_def)
  next
    case (Some ls)
    then have "event \<in> set (map fst (events s))"
      by (metis map_of_eq_None_iff option.distinct(1) set_map)
    then have "map fst (AList.update event (filter (\<lambda>l. handler l \<noteq> h) ls) (events s))
               = map fst (events s)"
      by (simp add: AList.update_keys del: set_map)
    with False Some show ?thesis
      by (auto simp: off_def AList.update_conv')
  qed
qed

text \<open>
  On \<open>mixedHub\<close>: \<^verbatim>\<open>off('a', f2)\<close> leaves the one record of closure 1 on \<^verbatim>\<open>'a'\<close>, and
  \<^verbatim>\<open>off('*', f4)\<close> empties the wildcard array and leaves the map alone.
\<close>

theorem off_by_reference_frame_witness:
  "map_of (events (off (Some ''a'') (Some 2) mixedHub)) ''a'' =
     Some [\<lparr>handler = 1, isOnce = False, priority = 0, boundContext = Undefined, ident = 2\<rparr>]
   \<and> map_of (events mixedHub) ''a'' =
     Some [\<lparr>handler = 2, isOnce = False, priority = 5, boundContext = Undefined, ident = 3\<rparr>,
           \<lparr>handler = 2, isOnce = False, priority = 0, boundContext = Undefined, ident = 1\<rparr>,
           \<lparr>handler = 1, isOnce = False, priority = 0, boundContext = Undefined, ident = 2\<rparr>]
   \<and> map_of (events (off (Some ''a'') (Some 2) mixedHub)) ''b'' = map_of (events mixedHub) ''b''
   \<and> map fst (events (off (Some ''a'') (Some 2) mixedHub)) = [''a'', ''b'']
   \<and> wildcardListeners (off (Some ''a'') (Some 2) mixedHub) = wildcardListeners mixedHub
   \<and> wildcardListeners (off (Some ''*'') (Some 4) mixedHub) = []
   \<and> events (off (Some ''*'') (Some 4) mixedHub) = events mixedHub"
proof -
  have a: "\<not> (''a'' = ''*'' \<and> wildcardEnabled mixedHub)" by simp
  have w: "''*'' = ''*'' \<and> wildcardEnabled mixedHub" by (simp add: run_defs hub_defs)
  have m: "map_of (events mixedHub) ''a'' =
     Some [\<lparr>handler = 2, isOnce = False, priority = 5, boundContext = Undefined, ident = 3\<rparr>,
           \<lparr>handler = 2, isOnce = False, priority = 0, boundContext = Undefined, ident = 1\<rparr>,
           \<lparr>handler = 1, isOnce = False, priority = 0, boundContext = Undefined, ident = 2\<rparr>]"
    "map fst (events mixedHub) = [''a'', ''b'']"
    "wildcardListeners mixedHub =
       [\<lparr>handler = 4, isOnce = False, priority = 0, boundContext = Obj 7, ident = 0\<rparr>]"
    by (simp_all add: run_defs hub_defs)
  from off_by_reference_frame [of "''a''" mixedHub 2] a
    off_by_reference_frame [of "''*''" mixedHub 4] w m
  show ?thesis by simp
qed

subsection \<open>C10: arguments and receiver of the two fan-outs\<close>



end
